theory Spec2Isabelle
  imports
    Complex_Main
    "HOL-Library.Word"
    "HOL-Library.Log_Nat"
    "HOL-Library.Char_ord"
    "HOL-Library.List_Lexorder"
begin

section \<open>Python values used by rhythmbox.py\<close>

text \<open>
  Exceptions are values. \<open>AudioopError\<close> is \<^verbatim>\<open>audioop.error\<close>; \<open>ValueError\<close> carries the
  message the source formats.
\<close>

datatype error =
    AssertionError
  | AudioopError
  | TypeError
  | ValueError string
  | ZeroDivisionError
  | OverflowError
  | StopIteration
  | KeyError
  | IndexError

definition bindE :: "error + 'a \<Rightarrow> ('a \<Rightarrow> error + 'b) \<Rightarrow> error + 'b" where
  "bindE r k = (case r of Inl e \<Rightarrow> Inl e | Inr x \<Rightarrow> k x)"

subsection \<open>Floats\<close>

text \<open>
  A Python float is an IEEE-754 binary64 number. The model holds the finite ones as the rational
  number they denote, and every arithmetic operation rounds its exact result to the nearest
  double, ties to even, with gradual underflow (\<open>fl\<close>). Infinities and NaN are not values of the
  model. Where an int is converted to a float, or two ints are divided, Python raises
  OverflowError beyond the double range, and so does the model. A product can reach an
  infinity only in \<open>frame_idx\<close>, from the seconds a caller passes, and \<^verbatim>\<open>int()\<close> of it raises
  OverflowError there. Buffer lengths are list lengths: the memory limit of a real
  \<^verbatim>\<open>bytes\<close> object is not modelled.
\<close>

type_synonym pyfloat = rat

definition binexp :: "rat \<Rightarrow> int" where
  \<comment> \<open>the exponent \<open>e\<close> with \<open>2 powi e \<le> \<bar>x\<bar> < 2 powi (e + 1)\<close>, for \<open>x \<noteq> 0\<close>\<close>
  "binexp x =
     (if 1 \<le> \<bar>x\<bar> then bitlen \<lfloor>\<bar>x\<bar>\<rfloor> - 1 else - bitlen (\<lceil>1 / \<bar>x\<bar>\<rceil> - 1))"

definition round_half_even :: "rat \<Rightarrow> int" where
  "round_half_even x =
     (let f = \<lfloor>x\<rfloor>; r = x - of_int f
      in if r < 1 / 2 then f else if 1 / 2 < r then f + 1 else if even f then f else f + 1)"

definition fl :: "rat \<Rightarrow> pyfloat" where
  "fl x =
     (if x = 0 then 0
      else let e = max (binexp x - 52) (- 1074)
           in of_int (round_half_even (x / 2 powi e)) * 2 powi e)"

definition fl_overflows :: "rat \<Rightarrow> bool" where
  \<comment> \<open>the exact result rounds to an infinity: it reaches the midpoint between the largest
      double and \<open>2 ^ 1024\<close>\<close>
  "fl_overflows x = (2 ^ 1024 - 2 ^ 970 \<le> \<bar>x\<bar>)"

definition unit_roundoff :: rat where
  \<comment> \<open>the relative error bound of rounding to a double\<close>
  "unit_roundoff = 1 / 2 ^ 53"

definition float_of_len :: "nat \<Rightarrow> pyfloat" where
  \<comment> \<open>a length or a loop counter where a float is needed\<close>
  "float_of_len n = fl (of_nat n)"

definition c_double :: "int \<Rightarrow> pyfloat" where
  \<comment> \<open>the C cast \<^verbatim>\<open>(double)\<close> of a 32-bit int: exact\<close>
  "c_double n = fl (of_int n)"

definition float_of_int :: "int \<Rightarrow> error + pyfloat" where
  \<comment> \<open>a Python int where a float is needed: rounded; OverflowError beyond the double range\<close>
  "float_of_int n = (if fl_overflows (of_int n) then Inl OverflowError else Inr (fl (of_int n)))"

definition float_mul :: "pyfloat \<Rightarrow> pyfloat \<Rightarrow> pyfloat" where
  "float_mul a b = fl (a * b)"

definition float_add :: "pyfloat \<Rightarrow> pyfloat \<Rightarrow> pyfloat" where
  "float_add a b = fl (a + b)"

definition float_sub :: "pyfloat \<Rightarrow> pyfloat \<Rightarrow> pyfloat" where
  "float_sub a b = fl (a - b)"

definition float_div :: "pyfloat \<Rightarrow> pyfloat \<Rightarrow> error + pyfloat" where
  "float_div a b = (if b = 0 then Inl ZeroDivisionError else Inr (fl (a / b)))"

definition float_div_int :: "pyfloat \<Rightarrow> int \<Rightarrow> error + pyfloat" where
  \<comment> \<open>\<^verbatim>\<open>a / n\<close> with a float \<open>a\<close> and an int \<open>n\<close>\<close>
  "float_div_int a n = bindE (float_of_int n) (float_div a)"

definition int_truediv :: "int \<Rightarrow> int \<Rightarrow> error + pyfloat" where
  \<comment> \<open>\<^verbatim>\<open>a / b\<close> on two ints: the correctly rounded quotient\<close>
  "int_truediv a b =
     (if b = 0 then Inl ZeroDivisionError
      else if fl_overflows (of_int a / of_int b) then Inl OverflowError
      else Inr (fl (of_int a / of_int b)))"

definition py_int :: "pyfloat \<Rightarrow> int" where
  \<comment> \<open>\<^verbatim>\<open>int(x)\<close> truncates towards zero\<close>
  "py_int x = (if 0 \<le> x then \<lfloor>x\<rfloor> else \<lceil>x\<rceil>)"

subsection \<open>Bytes and slices\<close>

type_synonym byte = "8 word"

definition slice_index :: "nat \<Rightarrow> int \<Rightarrow> nat" where
  \<comment> \<open>a slice bound, adjusted as Python does: negative bounds count from the end, then clip\<close>
  "slice_index n i = (if i < 0 then nat (int n + i) else min n (nat i))"

definition py_slice :: "'a list \<Rightarrow> int option \<Rightarrow> int option \<Rightarrow> 'a list" where
  \<comment> \<open>\<^verbatim>\<open>xs[start:stop]\<close>\<close>
  "py_slice xs start stop =
     (let n = length xs;
          lo = (case start of None \<Rightarrow> 0 | Some i \<Rightarrow> slice_index n i);
          hi = (case stop of None \<Rightarrow> n | Some j \<Rightarrow> slice_index n j)
      in take (hi - lo) (drop lo xs))"

definition zeros :: "int \<Rightarrow> byte list" where
  \<comment> \<open>\<^verbatim>\<open>b"\0" * k\<close>: empty for \<open>k \<le> 0\<close>\<close>
  "zeros k = replicate (nat k) 0"

section \<open>The audioop routines the Sample class calls\<close>

text \<open>
  Samples are signed, little-endian, \<open>width\<close> bytes each. The routines follow CPython's
  \<^verbatim>\<open>audioop.c\<close>: the argument checks first, then one pass over the fragment.
\<close>

definition c_int :: "int \<Rightarrow> error + int" where
  \<comment> \<open>an argument declared \<^verbatim>\<open>int\<close> in C\<close>
  "c_int n = (if - (2 ^ 31) \<le> n \<and> n < 2 ^ 31 then Inr n else Inl OverflowError)"

definition maxvals :: "int list" where
  "maxvals = [0, 0x7F, 0x7FFF, 0x7FFFFF, 0x7FFFFFFF]"

definition minvals :: "int list" where
  "minvals = [0, - 0x80, - 0x8000, - 0x800000, - 0x80000000]"

definition audioop_check_size :: "int \<Rightarrow> error + unit" where
  "audioop_check_size sz = (if sz < 1 \<or> 4 < sz then Inl AudioopError else Inr ())"

definition audioop_check_parameters :: "nat \<Rightarrow> int \<Rightarrow> error + unit" where
  "audioop_check_parameters len sz =
     bindE (audioop_check_size sz)
       (\<lambda>_. if int len mod sz \<noteq> 0 then Inl AudioopError else Inr ())"

fun le_uint :: "byte list \<Rightarrow> int" where
  "le_uint [] = 0"
| "le_uint (b # bs) = uint b + 256 * le_uint bs"

definition getrawsample :: "nat \<Rightarrow> byte list \<Rightarrow> nat \<Rightarrow> int" where
  \<comment> \<open>GETRAWSAMPLE(size, cp, i)\<close>
  "getrawsample sz cp i =
     (let u = le_uint (take sz (drop i cp))
      in if 2 ^ (8 * sz - 1) \<le> u then u - 2 ^ (8 * sz) else u)"

fun setrawsample :: "nat \<Rightarrow> int \<Rightarrow> byte list" where
  \<comment> \<open>SETRAWSAMPLE(size, cp, i, val), as the bytes written\<close>
  "setrawsample 0 val = []"
| "setrawsample (Suc sz) val = word_of_int val # setrawsample sz (val div 256)"

definition getsample32 :: "nat \<Rightarrow> byte list \<Rightarrow> nat \<Rightarrow> int" where
  "getsample32 sz cp i = getrawsample sz cp i * 2 ^ (8 * (4 - sz))"

definition setsample32 :: "nat \<Rightarrow> int \<Rightarrow> byte list" where
  "setsample32 sz val = setrawsample sz (val div 2 ^ (8 * (4 - sz)))"

definition sample_offsets :: "nat \<Rightarrow> nat \<Rightarrow> nat list" where
  \<comment> \<open>\<^verbatim>\<open>for (i = 0; i < len; i += width)\<close>\<close>
  "sample_offsets len width = map (\<lambda>k. k * width) [0..<len div width]"

definition fbound :: "pyfloat \<Rightarrow> int \<Rightarrow> int \<Rightarrow> int" where
  "fbound val minval maxval =
     (if of_int maxval < val then maxval
      else if val < of_int minval + 1 then minval
      else \<lfloor>val\<rfloor>)"

definition add_sample :: "nat \<Rightarrow> int \<Rightarrow> int \<Rightarrow> int" where
  \<comment> \<open>the sum of two samples, truncated in case of overflow: on ints below 4 bytes, through
      doubles and \<open>fbound\<close> at 4\<close>
  "add_sample w val1 val2 =
     (let maxval = maxvals ! w; minval = minvals ! w
      in if w < 4 then
           (let newval = val1 + val2
            in if maxval < newval then maxval else if newval < minval then minval else newval)
         else fbound (float_add (c_double val1) (c_double val2)) minval maxval)"

definition audioop_add :: "byte list \<Rightarrow> byte list \<Rightarrow> int \<Rightarrow> error + byte list" where
  "audioop_add fragment1 fragment2 width =
     bindE (c_int width) (\<lambda>width.
     bindE (audioop_check_parameters (length fragment1) width) (\<lambda>_.
       if length fragment1 \<noteq> length fragment2 then Inl AudioopError
       else
         Inr (concat (map (\<lambda>i.
                setrawsample (nat width)
                  (add_sample (nat width) (getrawsample (nat width) fragment1 i)
                     (getrawsample (nat width) fragment2 i)))
              (sample_offsets (length fragment1) (nat width))))))"

definition audioop_max :: "byte list \<Rightarrow> int \<Rightarrow> error + int" where
  "audioop_max fragment width =
     bindE (c_int width) (\<lambda>width.
     bindE (audioop_check_parameters (length fragment) width) (\<lambda>_.
       let w = nat width
       in Inr (fold (\<lambda>i m. max m \<bar>getrawsample w fragment i\<bar>)
                 (sample_offsets (length fragment) w) 0)))"

definition audioop_mul :: "byte list \<Rightarrow> int \<Rightarrow> pyfloat \<Rightarrow> error + byte list" where
  "audioop_mul fragment width factor =
     bindE (c_int width) (\<lambda>width.
     bindE (audioop_check_parameters (length fragment) width) (\<lambda>_.
       let w = nat width; maxval = maxvals ! w; minval = minvals ! w
       in Inr (concat (map (\<lambda>i.
            setrawsample w
              (fbound (float_mul (c_double (getrawsample w fragment i)) factor) minval maxval))
          (sample_offsets (length fragment) w)))))"

definition audioop_lin2lin :: "byte list \<Rightarrow> int \<Rightarrow> int \<Rightarrow> error + byte list" where
  "audioop_lin2lin fragment width newwidth =
     bindE (c_int width) (\<lambda>width.
     bindE (c_int newwidth) (\<lambda>newwidth.
     bindE (audioop_check_parameters (length fragment) width) (\<lambda>_.
     bindE (audioop_check_size newwidth) (\<lambda>_.
       Inr (concat (map (\<lambda>i. setsample32 (nat newwidth) (getsample32 (nat width) fragment i))
              (sample_offsets (length fragment) (nat width))))))))"

definition audioop_tostereo ::
  "byte list \<Rightarrow> int \<Rightarrow> pyfloat \<Rightarrow> pyfloat \<Rightarrow> error + byte list" where
  "audioop_tostereo fragment width lfactor rfactor =
     bindE (c_int width) (\<lambda>width.
     bindE (audioop_check_parameters (length fragment) width) (\<lambda>_.
       let w = nat width; maxval = maxvals ! w; minval = minvals ! w
       in Inr (concat (map (\<lambda>i.
            let val = c_double (getrawsample w fragment i)
            in setrawsample w (fbound (float_mul val lfactor) minval maxval) @
               setrawsample w (fbound (float_mul val rfactor) minval maxval))
          (sample_offsets (length fragment) w)))))"

text \<open>
  \<^verbatim>\<open>audioop.ratecv\<close> (linear-interpolation resampling) is a parameter of the model: a function
  from the fragment, width, channel count, input rate and output rate to the converted
  fragment, or an error.
\<close>

type_synonym ratecv = "byte list \<Rightarrow> int \<Rightarrow> int \<Rightarrow> int \<Rightarrow> int \<Rightarrow> error + byte list"

section \<open>Sample\<close>

text \<open>
  The object's attributes. \<open>frames\<close> is the private \<^verbatim>\<open>__frames\<close>; it is \<open>None\<close> only while
  \<open>mix_at\<close> has released the buffer, and stays so if \<^verbatim>\<open>audioop.add\<close> raises there.
\<close>

record sample =
  locked :: bool
  samplerate :: int
  nchannels :: int
  sampwidth :: int
  frames :: "byte list option"
  filename :: "string option"

definition norm_samplerate :: int where "norm_samplerate = 44100"
definition norm_nchannels :: int where "norm_nchannels = 2"
definition norm_sampwidth :: int where "norm_sampwidth = 2"

text \<open>
  A method that mutates the object returns the object after the call (\<open>Inr\<close>), or the exception
  raised together with the object as the exception leaves it (\<open>Inl\<close>).
\<close>

type_synonym mutation = "error \<times> sample + sample"

definition raising :: "sample \<Rightarrow> error + 'a \<Rightarrow> ('a \<Rightarrow> error \<times> sample + 'b) \<Rightarrow> error \<times> sample + 'b" where
  \<comment> \<open>evaluate \<open>r\<close> while the object is \<open>s\<close>\<close>
  "raising s r k = (case r of Inl e \<Rightarrow> Inl (e, s) | Inr x \<Rightarrow> k x)"

definition bindM :: "error \<times> sample + 'a \<Rightarrow> ('a \<Rightarrow> error \<times> sample + 'b) \<Rightarrow> error \<times> sample + 'b" where
  "bindM r k = (case r of Inl e \<Rightarrow> Inl e | Inr x \<Rightarrow> k x)"

definition get_frames :: "sample \<Rightarrow> error + byte list" where
  \<comment> \<open>the buffer where bytes are required: \<^verbatim>\<open>len\<close>, slicing, \<^verbatim>\<open>+=\<close> and audioop reject \<open>None\<close>\<close>
  "get_frames s = (case frames s of None \<Rightarrow> Inl TypeError | Some f \<Rightarrow> Inr f)"

definition lock :: "sample \<Rightarrow> sample" where
  "lock s = s\<lparr>locked := True\<rparr>"

definition duration :: "sample \<Rightarrow> error + pyfloat" where
  "duration s =
     bindE (get_frames s) (\<lambda>f.
     bindE (int_truediv (int (length f)) (samplerate s)) (\<lambda>a.
     bindE (float_div_int a (sampwidth s)) (\<lambda>b.
     float_div_int b (nchannels s))))"

definition frame_idx :: "sample \<Rightarrow> pyfloat \<Rightarrow> error + int" where
  "frame_idx s seconds =
     bindE (float_of_int (samplerate s)) (\<lambda>rate.
       if fl_overflows (rate * seconds) then Inl OverflowError
       else Inr (nchannels s * sampwidth s * py_int (float_mul rate seconds)))"

definition append_sample :: "sample \<Rightarrow> pyfloat \<Rightarrow> mutation" where
  "append_sample s seconds =
     (if locked s then Inl (AssertionError, s)
      else raising s (frame_idx s seconds) (\<lambda>required_extra.
           raising s (get_frames s) (\<lambda>f.
             Inr (s\<lparr>frames := Some (f @ zeros required_extra)\<rparr>))))"

definition Sample_init :: "byte list option \<Rightarrow> pyfloat \<Rightarrow> error + sample" where
  \<comment> \<open>\<^verbatim>\<open>Sample(frames, duration=duration)\<close>, without a wave file\<close>
  "Sample_init frames0 duration0 =
     (let s = \<lparr>locked = False, samplerate = norm_samplerate, nchannels = norm_nchannels,
                sampwidth = norm_sampwidth, frames = frames0, filename = None\<rparr>
      in if 0 < duration0 then
           bindE (get_frames s) (\<lambda>f.
             if 0 < length f
             then Inl (ValueError ''cannot specify a duration if frames are provided'')
             else (case append_sample s duration0 of Inl (e, _) \<Rightarrow> Inl e | Inr s' \<Rightarrow> Inr s'))
         else Inr s)"

definition dup :: "sample \<Rightarrow> sample" where
  "dup s =
     \<lparr>locked = False, samplerate = samplerate s, nchannels = nchannels s,
      sampwidth = sampwidth s, frames = frames s, filename = filename s\<rparr>"

definition normalize_sample :: "ratecv \<Rightarrow> sample \<Rightarrow> mutation" where
  "normalize_sample rcv s =
     (if locked s then Inl (AssertionError, s)
      else
        bindM
          (if samplerate s \<noteq> norm_samplerate then
             raising s (bindE (get_frames s) (\<lambda>f.
                          rcv f (sampwidth s) (nchannels s) (samplerate s) norm_samplerate))
               (\<lambda>f'. Inr (s\<lparr>frames := Some f', samplerate := norm_samplerate\<rparr>))
           else Inr s) (\<lambda>s1.
        bindM
          (if sampwidth s1 \<noteq> norm_sampwidth then
             raising s1 (bindE (get_frames s1) (\<lambda>f.
                           audioop_lin2lin f (sampwidth s1) norm_sampwidth))
               (\<lambda>f'. Inr (s1\<lparr>frames := Some f', sampwidth := norm_sampwidth\<rparr>))
           else Inr s1) (\<lambda>s2.
          if nchannels s2 = 1 then
            raising s2 (bindE (get_frames s2) (\<lambda>f. audioop_tostereo f (sampwidth s2) 1 1))
              (\<lambda>f'. Inr (s2\<lparr>frames := Some f', nchannels := 2\<rparr>))
          else Inr s2)))"

definition get_32bit_frames :: "sample \<Rightarrow> bool \<Rightarrow> error + byte list option" where
  "get_32bit_frames s scale_amplitude =
     (if sampwidth s = 4 then Inr (frames s)
      else
        bindE (get_frames s) (\<lambda>f.
        bindE (audioop_lin2lin f (sampwidth s) 4) (\<lambda>frames1.
          if \<not> scale_amplitude then
            bindE (float_div_int 1 (2 ^ nat (8 * \<bar>sampwidth s - 4\<bar>))) (\<lambda>factor.
            bindE (audioop_mul frames1 4 factor) (\<lambda>frames2. Inr (Some frames2)))
          else Inr (Some frames1))))"

definition make_32bit :: "sample \<Rightarrow> bool \<Rightarrow> mutation" where
  "make_32bit s scale_amplitude =
     (if locked s then Inl (AssertionError, s)
      else raising s (get_32bit_frames s scale_amplitude) (\<lambda>f.
             Inr (s\<lparr>frames := f, sampwidth := 4\<rparr>)))"

definition amplify_max :: "sample \<Rightarrow> mutation" where
  "amplify_max s =
     (if locked s then Inl (AssertionError, s)
      else
        raising s (bindE (get_frames s) (\<lambda>f. audioop_max f (sampwidth s))) (\<lambda>max_amp.
          let max_target = 2 ^ nat (8 * sampwidth s - 1) - 2
          in if 0 < max_amp then
               raising s (bindE (int_truediv max_target max_amp) (\<lambda>factor.
                          bindE (get_frames s) (\<lambda>f. audioop_mul f (sampwidth s) factor)))
                 (\<lambda>f'. Inr (s\<lparr>frames := Some f'\<rparr>))
             else Inr s))"

definition make_16bit :: "sample \<Rightarrow> bool \<Rightarrow> mutation" where
  "make_16bit s maximize_amplitude =
     (if locked s then Inl (AssertionError, s)
      else if \<not> 2 \<le> sampwidth s then Inl (AssertionError, s)
      else
        bindM (if maximize_amplitude then amplify_max s else Inr s) (\<lambda>s1.
          if 2 < sampwidth s1 then
            raising s1 (bindE (get_frames s1) (\<lambda>f. audioop_lin2lin f (sampwidth s1) 2))
              (\<lambda>f'. Inr (s1\<lparr>frames := Some f', sampwidth := 2\<rparr>))
          else Inr s1))"

definition amplify :: "sample \<Rightarrow> pyfloat \<Rightarrow> mutation" where
  "amplify s factor =
     (if locked s then Inl (AssertionError, s)
      else raising s (bindE (get_frames s) (\<lambda>f. audioop_mul f (sampwidth s) factor))
             (\<lambda>f'. Inr (s\<lparr>frames := Some f'\<rparr>)))"

definition cut_sample :: "sample \<Rightarrow> pyfloat \<Rightarrow> pyfloat \<Rightarrow> mutation" where
  "cut_sample s start_seconds end_seconds =
     (if locked s then Inl (AssertionError, s)
      else if \<not> start_seconds < end_seconds then Inl (AssertionError, s)
      else
        raising s (frame_idx s start_seconds) (\<lambda>start.
        raising s (frame_idx s end_seconds) (\<lambda>end.
        raising s (get_frames s) (\<lambda>f.
          if end \<noteq> int (length f)
          then Inr (s\<lparr>frames := Some (py_slice f (Some start) (Some end))\<rparr>)
          else Inr s))))"

definition truthy :: "pyfloat option \<Rightarrow> bool" where
  \<comment> \<open>\<^verbatim>\<open>if other_seconds:\<close> neither \<open>None\<close> nor zero\<close>
  "truthy x = (case x of None \<Rightarrow> False | Some v \<Rightarrow> v \<noteq> 0)"

definition other_frames_of :: "sample \<Rightarrow> pyfloat option \<Rightarrow> error + byte list option" where
  \<comment> \<open>the \<^verbatim>\<open>if other_seconds: ... else: ...\<close> of \<open>mix\<close> and \<open>mix_at\<close>\<close>
  "other_frames_of other other_seconds =
     (if truthy other_seconds then
        bindE (frame_idx other (the other_seconds)) (\<lambda>i.
        bindE (get_frames other) (\<lambda>f. Inr (Some (py_slice f None (Some i)))))
      else Inr (frames other))"

definition need_bytes :: "byte list option \<Rightarrow> error + byte list" where
  "need_bytes x = (case x of None \<Rightarrow> Inl TypeError | Some f \<Rightarrow> Inr f)"

definition mix :: "sample \<Rightarrow> sample \<Rightarrow> pyfloat option \<Rightarrow> bool \<Rightarrow> mutation" where
  "mix s other other_seconds pad_shortest =
     (if locked s then Inl (AssertionError, s)
      else if sampwidth s \<noteq> sampwidth other then Inl (AssertionError, s)
      else if samplerate s \<noteq> samplerate other then Inl (AssertionError, s)
      else if nchannels s \<noteq> nchannels other then Inl (AssertionError, s)
      else
        raising s (other_frames_of other other_seconds) (\<lambda>frames2.
        raising s (need_bytes (frames s)) (\<lambda>frames1.
        raising s (need_bytes frames2) (\<lambda>frames2.
          let (frames1, frames2) =
                (if pad_shortest then
                   (if length frames1 < length frames2
                    then (frames1 @ zeros (int (length frames2) - int (length frames1)), frames2)
                    else if length frames2 < length frames1
                    then (frames1, frames2 @ zeros (int (length frames1) - int (length frames2)))
                    else (frames1, frames2))
                 else (frames1, frames2))
          in raising s (audioop_add frames1 frames2 (sampwidth s))
               (\<lambda>f'. Inr (s\<lparr>frames := Some f'\<rparr>))))))"

definition mix_grow_if_needed :: "sample \<Rightarrow> int \<Rightarrow> int \<Rightarrow> mutation" where
  "mix_grow_if_needed s start_frame_idx other_length =
     (let required_length = start_frame_idx + other_length
      in raising s (get_frames s) (\<lambda>f.
           if int (length f) < required_length
           then Inr (s\<lparr>frames := Some (f @ zeros (required_length - int (length f)))\<rparr>)
           else Inr s))"

definition mix_split_frames ::
  "sample \<Rightarrow> int \<Rightarrow> int \<Rightarrow> error \<times> sample + (byte list \<times> byte list \<times> byte list) \<times> sample" where
  "mix_split_frames s other_frames_length start_frame_idx =
     bindM (mix_grow_if_needed s start_frame_idx other_frames_length) (\<lambda>s1.
     raising s1 (get_frames s1) (\<lambda>f.
       let pre = py_slice f None (Some start_frame_idx);
           to_mix = py_slice f (Some start_frame_idx) (Some (start_frame_idx + other_frames_length));
           post = py_slice f (Some (start_frame_idx + other_frames_length)) None
       in Inr ((pre, to_mix, post), s1)))"

definition mix_join_frames :: "byte list \<Rightarrow> byte list \<Rightarrow> byte list \<Rightarrow> byte list" where
  "mix_join_frames pre mid post =
     (if post \<noteq> [] then pre @ mid @ post
      else if mid \<noteq> [] then pre @ mid
      else pre)"

definition mix_at :: "sample \<Rightarrow> pyfloat \<Rightarrow> sample \<Rightarrow> pyfloat option \<Rightarrow> mutation" where
  "mix_at s seconds other other_seconds =
     (if locked s then Inl (AssertionError, s)
      else if sampwidth s \<noteq> sampwidth other then Inl (AssertionError, s)
      else if samplerate s \<noteq> samplerate other then Inl (AssertionError, s)
      else if nchannels s \<noteq> nchannels other then Inl (AssertionError, s)
      else
        raising s (frame_idx s seconds) (\<lambda>start_frame_idx.
        raising s (other_frames_of other other_seconds) (\<lambda>other_frames.
        raising s (need_bytes other_frames) (\<lambda>other_frames.
        bindM (mix_split_frames s (int (length other_frames)) start_frame_idx)
          (\<lambda>((pre, to_mix, post), s1).
             let s2 = s1\<lparr>frames := None\<rparr>
             in raising s2 (audioop_add to_mix other_frames (sampwidth s2)) (\<lambda>mixed.
                  Inr (s2\<lparr>frames := Some (mix_join_frames pre mixed post)\<rparr>)))))))"

section \<open>Mixer\<close>

text \<open>
  A pattern is a dict from instrument name to bar string: its items, in insertion order. The
  instrument table maps a name to a Sample object: the object's identity (what \<^verbatim>\<open>is\<close>
  compares) and its state.
\<close>

type_synonym pattern = "(string \<times> string) list"
type_synonym obj = "nat \<times> sample"

record mixer =
  patterns :: "pattern list"
  instruments :: "string \<rightharpoonup> obj"
  bpm :: int
  ticks :: int

fun check_bars :: "(string \<rightharpoonup> obj) \<Rightarrow> int \<Rightarrow> nat \<Rightarrow> pattern \<Rightarrow> error + unit" where
  "check_bars ins tks bar_length [] = Inr ()"
| "check_bars ins tks bar_length ((instrument, bars) # rest) =
     (if ins instrument = None
      then Inl (ValueError (''instrument '' @ [CHR 0x27] @ instrument @ [CHR 0x27] @ '' not defined''))
      else if tks = 0 then Inl ZeroDivisionError
      else if int (length bars) mod tks \<noteq> 0
      then Inl (ValueError ''bar length must be multiple of the number of ticks'')
      else if 0 < bar_length \<and> bar_length \<noteq> length bars
      then Inl (ValueError ''all bars must be of equal length in the same pattern'')
      else check_bars ins tks (length bars) rest)"

fun check_patterns :: "(string \<rightharpoonup> obj) \<Rightarrow> int \<Rightarrow> pattern list \<Rightarrow> error + unit" where
  "check_patterns ins tks [] = Inr ()"
| "check_patterns ins tks (p # ps) =
     bindE (check_bars ins tks 0 p) (\<lambda>_. check_patterns ins tks ps)"

definition Mixer_init ::
  "pattern list \<Rightarrow> int \<Rightarrow> int \<Rightarrow> (string \<rightharpoonup> obj) \<Rightarrow> error + mixer" where
  "Mixer_init pats bpm0 ticks0 ins =
     bindE (check_patterns ins ticks0 pats)
       (\<lambda>_. Inr \<lparr>patterns = pats, instruments = ins, bpm = bpm0, ticks = ticks0\<rparr>)"

text \<open>
  A generator is the list of the items it yields and, when it ends by raising, the exception:
  the consumer has handled every item of the list before the exception reaches it.
\<close>

type_synonym 'a generator = "'a list \<times> error option"

definition yield :: "'a \<Rightarrow> 'a generator \<Rightarrow> 'a generator" where
  "yield x g = (x # fst g, snd g)"

type_synonym trigger = "nat \<times> pyfloat \<times> (string \<times> obj) list"

fun tick_triggers :: "(string \<rightharpoonup> obj) \<Rightarrow> pattern \<Rightarrow> nat \<Rightarrow> error + (string \<times> obj) list" where
  \<comment> \<open>\<^verbatim>\<open>for instrument, bars in pattern\<close> at tick \<open>i\<close>\<close>
  "tick_triggers ins [] i = Inr []"
| "tick_triggers ins ((instrument, bars) # rest) i =
     (if \<not> i < length bars then Inl IndexError
      else if bars ! i \<noteq> CHR ''.'' \<and> bars ! i \<noteq> CHR '' '' then
        (case ins instrument of
           None \<Rightarrow> Inl KeyError
         | Some smp \<Rightarrow> bindE (tick_triggers ins rest i) (\<lambda>ts. Inr ((instrument, smp) # ts)))
      else tick_triggers ins rest i)"

fun pattern_triggers ::
  "(string \<rightharpoonup> obj) \<Rightarrow> pyfloat \<Rightarrow> pattern \<Rightarrow> nat list \<Rightarrow> nat \<Rightarrow> trigger generator" where
  \<comment> \<open>\<^verbatim>\<open>for i in range(num_triggers)\<close>, from the running \<open>index\<close>\<close>
  "pattern_triggers ins time_per_index pattern [] index = ([], None)"
| "pattern_triggers ins time_per_index pattern (i # rest) index =
     (case tick_triggers ins pattern i of
        Inl e \<Rightarrow> ([], Some e)
      | Inr triggers \<Rightarrow>
          if triggers \<noteq> []
          then yield (index, float_mul time_per_index (float_of_len index), triggers)
                 (pattern_triggers ins time_per_index pattern rest (index + 1))
          else pattern_triggers ins time_per_index pattern rest (index + 1))"

fun patterns_triggers ::
  "(string \<rightharpoonup> obj) \<Rightarrow> pyfloat \<Rightarrow> pattern list \<Rightarrow> nat \<Rightarrow> trigger generator" where
  \<comment> \<open>\<^verbatim>\<open>for num, pattern in enumerate(self.patterns, start=1)\<close>\<close>
  "patterns_triggers ins time_per_index [] index = ([], None)"
| "patterns_triggers ins time_per_index (p # ps) index =
     (case p of
        [] \<Rightarrow> ([], Some IndexError)
      | (_, bars0) # _ \<Rightarrow>
          let num_triggers = length bars0;
              g = pattern_triggers ins time_per_index p [0..<num_triggers] index
          in (case snd g of
                Some e \<Rightarrow> g
              | None \<Rightarrow>
                  let g' = patterns_triggers ins time_per_index ps (index + num_triggers)
                  in (fst g @ fst g', snd g')))"

definition mixed_triggers :: "mixer \<Rightarrow> trigger generator" where
  "mixed_triggers m =
     (case bindE (float_div_int 60 (bpm m)) (\<lambda>a. float_div_int a (ticks m)) of
        Inl e \<Rightarrow> ([], Some e)
      | Inr time_per_index \<Rightarrow> patterns_triggers (instruments m) time_per_index (patterns m) 0)"

fun max_duration :: "obj \<Rightarrow> pyfloat \<Rightarrow> obj list \<Rightarrow> error + obj" where
  \<comment> \<open>\<^verbatim>\<open>max(..., key=lambda s: s.duration)\<close> after the first element: a later element replaces
      the maximum only when its key is greater\<close>
  "max_duration best k [] = Inr best"
| "max_duration best k (x # xs) =
     bindE (duration (snd x)) (\<lambda>kx.
       if k < kx then max_duration x kx xs else max_duration best k xs)"

definition longest_sample_of :: "obj list \<Rightarrow> error + obj" where
  "longest_sample_of xs =
     (case xs of
        [] \<Rightarrow> Inl (ValueError ''max() arg is an empty sequence'')
      | x # rest \<Rightarrow> bindE (duration (snd x)) (\<lambda>k. max_duration x k rest))"

fun mix_others :: "sample \<Rightarrow> nat \<Rightarrow> (string \<times> obj) list \<Rightarrow> error + sample" where
  \<comment> \<open>\<^verbatim>\<open>for instrument, sample in triggers\<close>, mixing into the copy of the longest\<close>
  "mix_others mixed longest [] = Inr mixed"
| "mix_others mixed longest ((instrument, smp) # rest) =
     (if fst smp = longest then mix_others mixed longest rest
      else (case mix mixed (snd smp) None True of
              Inl (e, _) \<Rightarrow> Inl e
            | Inr mixed' \<Rightarrow> mix_others mixed' longest rest))"

type_synonym item = "nat \<times> pyfloat \<times> sample"

fun samples_loop :: "(string list \<rightharpoonup> sample) \<Rightarrow> trigger list \<Rightarrow> item generator" where
  \<comment> \<open>the body of \<open>mixed_samples\<close>, over the triggers, with \<open>mix_cache\<close>\<close>
  "samples_loop mix_cache [] = ([], None)"
| "samples_loop mix_cache ((index, timestamp, triggers) # rest) =
     (if 1 < length triggers then
        (let instruments_key = sort (map fst triggers)
         in case mix_cache instruments_key of
              Some cached \<Rightarrow> yield (index, timestamp, cached) (samples_loop mix_cache rest)
            | None \<Rightarrow>
                (case bindE (longest_sample_of (map snd triggers)) (\<lambda>longest_sample.
                        bindE (mix_others (dup (snd longest_sample)) (fst longest_sample) triggers)
                          (\<lambda>mixed. Inr (lock mixed))) of
                   Inl e \<Rightarrow> ([], Some e)
                 | Inr mixed \<Rightarrow>
                     yield (index, timestamp, mixed)
                       (samples_loop (mix_cache(instruments_key \<mapsto> mixed)) rest)))
      else (case triggers of
              [] \<Rightarrow> ([], Some IndexError)
            | t # _ \<Rightarrow> yield (index, timestamp, snd (snd t)) (samples_loop mix_cache rest)))"

definition mixed_samples :: "mixer \<Rightarrow> item generator" where
  "mixed_samples m =
     (let g = mixed_triggers m; g' = samples_loop Map.empty (fst g)
      in (fst g', case snd g' of Some e \<Rightarrow> Some e | None \<Rightarrow> snd g))"

fun sum_bars :: "int \<Rightarrow> int \<Rightarrow> pyfloat \<Rightarrow> pattern list \<Rightarrow> error + pyfloat" where
  \<comment> \<open>\<^verbatim>\<open>for p in self.patterns: ... total_seconds += ...\<close>\<close>
  "sum_bars bpm0 ticks0 total_seconds [] = Inr total_seconds"
| "sum_bars bpm0 ticks0 total_seconds (p # ps) =
     (case p of
        [] \<Rightarrow> Inl StopIteration
      | (_, bar) # _ \<Rightarrow>
          bindE (float_div_int (float_mul (float_of_len (length bar)) 60) bpm0) (\<lambda>a.
          bindE (float_div_int a ticks0) (\<lambda>b.
            sum_bars bpm0 ticks0 (float_add total_seconds b) ps)))"

fun place :: "bool \<Rightarrow> pyfloat \<Rightarrow> sample \<Rightarrow> item list \<Rightarrow> error + sample" where
  \<comment> \<open>\<^verbatim>\<open>for index, timestamp, sample in self.mixed_samples()\<close>; the progress line divides by
      \<open>total_seconds\<close> when \<open>verbose\<close>\<close>
  "place verbose total_seconds mixed [] = Inr mixed"
| "place verbose total_seconds mixed ((index, timestamp, smp) # rest) =
     bindE (if verbose then float_div timestamp total_seconds else Inr 0) (\<lambda>_.
       case mix_at mixed timestamp smp None of
         Inl (e, _) \<Rightarrow> Inl e
       | Inr mixed' \<Rightarrow> place verbose total_seconds mixed' rest)"

definition correct_length :: "pyfloat \<Rightarrow> sample \<Rightarrow> error + sample" where
  \<comment> \<open>chop/extend to get to the precise total duration\<close>
  "correct_length total_seconds mixed =
     bindE (duration mixed) (\<lambda>d.
       let missing = float_sub total_seconds d
       in if 0 < missing then
            (case append_sample mixed missing of Inl (e, _) \<Rightarrow> Inl e | Inr r \<Rightarrow> Inr r)
          else if missing < 0 then
            (case cut_sample mixed 0 total_seconds of Inl (e, _) \<Rightarrow> Inl e | Inr r \<Rightarrow> Inr r)
          else Inr mixed)"

definition Mixer_mix :: "mixer \<Rightarrow> bool \<Rightarrow> error + sample" where
  "Mixer_mix m verbose =
     (if patterns m = [] then Sample_init (Some []) 0
      else
        bindE (sum_bars (bpm m) (ticks m) 0 (patterns m)) (\<lambda>total_seconds.
        bindE (Sample_init (Some []) 0) (\<lambda>s0.
        bindE (case make_32bit s0 True of Inl (e, _) \<Rightarrow> Inl e | Inr s1 \<Rightarrow> Inr s1) (\<lambda>mixed0.
          let g = mixed_samples m
          in bindE (place verbose total_seconds mixed0 (fst g)) (\<lambda>mixed.
               case snd g of
                 Some e \<Rightarrow> Inl e
               | None \<Rightarrow> correct_length total_seconds mixed)))))"

section \<open>Objects used in the examples\<close>

definition cd_stereo :: "byte list \<Rightarrow> sample" where
  \<comment> \<open>an unlocked Sample in the normalized format, as \<^verbatim>\<open>Sample(frames)\<close> builds it\<close>
  "cd_stereo f =
     \<lparr>locked = False, samplerate = 44100, nchannels = 2, sampwidth = 2, frames = Some f,
      filename = None\<rparr>"

definition no_ratecv :: ratecv where
  \<comment> \<open>a resampler for the examples, none of which resamples\<close>
  "no_ratecv fragment width nch inrate outrate = Inl AudioopError"

definition mono24 :: "byte list \<Rightarrow> sample" where
  \<comment> \<open>mono, 24 bit, 44100 Hz\<close>
  "mono24 f =
     \<lparr>locked = False, samplerate = 44100, nchannels = 1, sampwidth = 3, frames = Some f,
      filename = None\<rparr>"


definition work32 :: "byte list \<Rightarrow> sample" where
  \<comment> \<open>stereo, 32 bit, 44100 Hz: the Mixer's working format, in which Song loads instruments\<close>
  "work32 f =
     \<lparr>locked = False, samplerate = 44100, nchannels = 2, sampwidth = 4, frames = Some f,
      filename = None\<rparr>"

definition kit :: "string \<rightharpoonup> obj" where
  \<comment> \<open>an instrument table: two locked one-frame samples, two distinct objects\<close>
  "kit = [''kick'' \<mapsto> (0, lock (work32 [1, 0, 0, 0, 2, 0, 0, 0])),
          ''snare'' \<mapsto> (1, lock (work32 [3, 0, 0, 0, 4, 0, 0, 0]))]"

definition song :: "pattern list \<Rightarrow> mixer" where
  \<comment> \<open>a Mixer over \<open>kit\<close> at Song's default tempo, 128 bpm and 4 ticks\<close>
  "song pats = \<lparr>patterns = pats, instruments = kit, bpm = 128, ticks = 4\<rparr>"

section \<open>Rounding to a double\<close>

lemma bitlen_pos: "0 < m \<Longrightarrow> 1 \<le> bitlen m"
  using bitlen_eq_zero_iff [of m] bitlen_nonneg [of m] by linarith

lemma binexp_lower:
  assumes "x \<noteq> 0"
  shows "2 powi binexp x \<le> \<bar>x\<bar>"
proof (cases "1 \<le> \<bar>x\<bar>")
  case True
  define m where "m = \<lfloor>\<bar>x\<bar>\<rfloor>"
  have m: "0 < m" using True by (simp add: m_def)
  have b: "1 \<le> bitlen m" using m by (rule bitlen_pos)
  have "(2::int) ^ nat (bitlen m - 1) \<le> m" using bitlen_bounds [OF m] by simp
  then have "(of_int ((2::int) ^ nat (bitlen m - 1)) :: rat) \<le> of_int m" by (simp only: of_int_le_iff)
  also have "\<dots> \<le> \<bar>x\<bar>" by (simp add: m_def)
  finally have "(2::rat) ^ nat (bitlen m - 1) \<le> \<bar>x\<bar>" by simp
  moreover have "binexp x = bitlen m - 1" using True by (simp add: binexp_def m_def)
  ultimately show ?thesis using b by (simp add: power_int_nonneg_exp)
next
  case False
  define y where "y = 1 / \<bar>x\<bar>"
  define n where "n = \<lceil>y\<rceil> - 1"
  have xpos: "0 < \<bar>x\<bar>" using assms by simp
  have y1: "1 < y" using False xpos by (simp add: y_def)
  have n: "0 < n" using y1 by (simp add: n_def less_ceiling_iff)
  have "n < 2 ^ nat (bitlen n)" using bitlen_bounds [OF n] by simp
  then have "n + 1 \<le> 2 ^ nat (bitlen n)" by simp
  then have "(of_int (n + 1) :: rat) \<le> of_int (2 ^ nat (bitlen n))" by (simp only: of_int_le_iff)
  moreover have "y \<le> of_int (n + 1)" by (simp add: n_def)
  ultimately have "y \<le> 2 ^ nat (bitlen n)" by simp
  then have "1 / 2 ^ nat (bitlen n) \<le> \<bar>x\<bar>"
    using xpos by (simp add: y_def field_simps)
  moreover have "binexp x = - bitlen n" using False by (simp add: binexp_def n_def y_def)
  moreover have "(2::rat) powi (- bitlen n) = 1 / 2 ^ nat (bitlen n)"
    using bitlen_nonneg [of n] by (simp add: power_int_minus_divide power_int_nonneg_exp)
  ultimately show ?thesis by simp
qed

lemma binexp_upper:
  assumes "x \<noteq> 0"
  shows "\<bar>x\<bar> < 2 powi (binexp x + 1)"
proof (cases "1 \<le> \<bar>x\<bar>")
  case True
  define m where "m = \<lfloor>\<bar>x\<bar>\<rfloor>"
  have m: "0 < m" using True by (simp add: m_def)
  have b: "1 \<le> bitlen m" using m by (rule bitlen_pos)
  have "m < 2 ^ nat (bitlen m)" using bitlen_bounds [OF m] by simp
  then have "m + 1 \<le> 2 ^ nat (bitlen m)" by simp
  then have "(of_int (m + 1) :: rat) \<le> of_int (2 ^ nat (bitlen m))" by (simp only: of_int_le_iff)
  moreover have "\<bar>x\<bar> < of_int (m + 1)" using floor_correct [of "\<bar>x\<bar>"] by (simp add: m_def)
  ultimately have "\<bar>x\<bar> < 2 ^ nat (bitlen m)" by simp
  moreover have "binexp x + 1 = bitlen m" using True by (simp add: binexp_def m_def)
  ultimately show ?thesis using b by (simp add: power_int_nonneg_exp)
next
  case False
  define y where "y = 1 / \<bar>x\<bar>"
  define n where "n = \<lceil>y\<rceil> - 1"
  have xpos: "0 < \<bar>x\<bar>" using assms by simp
  have y1: "1 < y" using False xpos by (simp add: y_def)
  have n: "0 < n" using y1 by (simp add: n_def less_ceiling_iff)
  have b: "1 \<le> bitlen n" using n by (rule bitlen_pos)
  have "2 ^ nat (bitlen n - 1) \<le> n" using bitlen_bounds [OF n] by simp
  then have "(of_int (2 ^ nat (bitlen n - 1)) :: rat) \<le> of_int n" by (simp only: of_int_le_iff)
  also have "of_int n < y" using ceiling_correct [of y] by (simp add: n_def)
  finally have "2 ^ nat (bitlen n - 1) < y" by simp
  then have "\<bar>x\<bar> < 1 / 2 ^ nat (bitlen n - 1)"
    using xpos by (simp add: y_def field_simps)
  moreover have "binexp x + 1 = - (bitlen n - 1)" using False by (simp add: binexp_def n_def y_def)
  moreover have "(2::rat) powi (- (bitlen n - 1)) = 1 / 2 ^ nat (bitlen n - 1)"
    using b by (simp only: power_int_minus_divide) (simp add: power_int_nonneg_exp)
  ultimately show ?thesis by simp
qed

lemma binexp_unique:
  assumes "2 powi k \<le> \<bar>x\<bar>" and "\<bar>x\<bar> < 2 powi (k + 1)"
  shows "binexp x = k"
proof -
  have "0 < (2::rat) powi k" by simp
  then have "0 < \<bar>x\<bar>" using assms(1) by (rule less_le_trans)
  then have nz: "x \<noteq> 0" by simp
  have "(2::rat) powi binexp x < 2 powi (k + 1)"
    using binexp_lower [OF nz] assms(2) by simp
  then have "binexp x < k + 1"
    by (metis not_le one_le_numeral power_int_increasing)
  moreover have "(2::rat) powi k < 2 powi (binexp x + 1)"
    using binexp_upper [OF nz] assms(1) by simp
  then have "k < binexp x + 1"
    by (metis not_le one_le_numeral power_int_increasing)
  ultimately show ?thesis by simp
qed


lemma round_half_even_of_int [simp]: "round_half_even (of_int j) = j"
  by (simp add: round_half_even_def)

lemma powi_less_imp_less:
  assumes "(2::rat) powi a < 2 powi b"
  shows "a < b"
  using assms by (metis not_le one_le_numeral power_int_increasing)

lemma fl_exact:
  assumes m: "\<bar>m\<bar> < 2 ^ 53" and e: "- 1074 \<le> e"
  shows "fl (of_int m * 2 powi e) = of_int m * 2 powi e"
proof (cases "m = 0")
  case True
  then show ?thesis by (simp add: fl_def)
next
  case False
  define x :: rat where "x = of_int m * 2 powi e"
  have nz: "x \<noteq> 0" using False by (simp add: x_def)
  have "(of_int \<bar>m\<bar> :: rat) < of_int (2 ^ 53)" using m by (simp only: of_int_less_iff)
  then have "\<bar>of_int m :: rat\<bar> < 2 ^ 53" by simp
  then have "\<bar>of_int m :: rat\<bar> * 2 powi e < 2 ^ 53 * 2 powi e"
    by (rule mult_strict_right_mono) simp
  also have "\<dots> = 2 powi (53 + e)" by (simp add: power_int_add)
  finally have ub: "\<bar>x\<bar> < 2 powi (53 + e)" by (simp add: x_def abs_mult)
  have "2 powi binexp x < (2::rat) powi (53 + e)"
    using binexp_lower [OF nz] ub by (rule le_less_trans)
  then have "binexp x < 53 + e" by (rule powi_less_imp_less)
  define E where "E = max (binexp x - 52) (- 1074)"
  have E: "E \<le> e" using \<open>binexp x < 53 + e\<close> e by (simp add: E_def)
  have "(2::rat) powi e / 2 powi E = 2 powi (e - E)" by (simp add: power_int_diff)
  also have "\<dots> = 2 ^ nat (e - E)" using E by (simp add: power_int_nonneg_exp)
  finally have "of_int m * (2 powi e / 2 powi E) = (of_int m * 2 ^ nat (e - E) :: rat)"
    by (rule arg_cong)
  then have q: "x / 2 powi E = of_int (m * 2 ^ nat (e - E))"
    by (simp add: x_def)
  have "fl x = of_int (round_half_even (x / 2 powi E)) * 2 powi E"
    using nz by (simp add: fl_def E_def Let_def)
  also have "\<dots> = of_int (m * 2 ^ nat (e - E)) * 2 powi E"
    by (simp only: q round_half_even_of_int)
  also have "\<dots> = of_int m * (2 powi (e - E) * 2 powi E)"
    using E by (simp add: power_int_nonneg_exp)
  also have "\<dots> = x" by (simp add: x_def flip: power_int_add)
  finally show ?thesis by (simp add: x_def)
qed

lemma fl_of_int:
  assumes "\<bar>n\<bar> < 2 ^ 53"
  shows "fl (of_int n) = of_int n"
  using fl_exact [OF assms, of 0] by simp

lemma fl_dyadic:
  assumes "\<bar>m\<bar> < 2 ^ 53" and "k \<le> 1074"
  shows "fl (of_int m / 2 ^ k) = of_int m / 2 ^ k"
proof -
  have "(2::rat) powi (- int k) = 1 / 2 ^ k"
    by (simp add: power_int_minus_divide)
  then show ?thesis
    using fl_exact [OF assms(1), of "- int k"] assms(2) by simp
qed

lemma fl_nonneg: "0 \<le> x \<Longrightarrow> 0 \<le> fl x"
  by (simp add: fl_def Let_def round_half_even_def zero_le_mult_iff zero_le_divide_iff)

lemma round_half_even_nonpos:
  assumes "y \<le> 0"
  shows "round_half_even y \<le> 0"
proof -
  define f where "f = \<lfloor>y\<rfloor>"
  have f: "of_int f \<le> y" by (simp add: f_def)
  then have "(of_int f :: rat) \<le> 0" using assms by linarith
  then have f0: "f \<le> 0" by simp
  have "f + 1 \<le> 0" if "1 / 2 \<le> y - of_int f"
  proof -
    have "(of_int f :: rat) < 0" using that assms by linarith
    then have "f < 0" by simp
    then show ?thesis by simp
  qed
  then show ?thesis
    using f0 unfolding round_half_even_def Let_def f_def [symmetric]
    by (auto simp: not_less)
qed

lemma fl_nonpos: "x \<le> 0 \<Longrightarrow> fl x \<le> 0"
  by (simp add: fl_def Let_def mult_le_0_iff round_half_even_nonpos divide_le_0_iff)

lemma fl_overflows_code [code]:
  "fl_overflows x = (if \<bar>x\<bar> \<le> 18446744073709551616 then False else 2 ^ 1024 - 2 ^ 970 \<le> \<bar>x\<bar>)"
  by (simp add: fl_overflows_def)

lemma round_half_even_error: "\<bar>of_int (round_half_even y) - y\<bar> \<le> 1 / 2"
proof -
  define f where "f = \<lfloor>y\<rfloor>"
  define r where "r = y - of_int f"
  have r: "0 \<le> r" "r < 1" using floor_correct [of y] by (simp_all add: r_def f_def)
  have y: "y = of_int f + r" by (simp add: r_def)
  show ?thesis
    unfolding round_half_even_def Let_def f_def [symmetric] r_def [symmetric]
    using r by (auto simp: y)
qed

lemma fl_error_exponent:
  assumes "x \<noteq> 0"
  shows "\<bar>fl x - x\<bar> \<le> 2 powi (max (binexp x - 52) (- 1074)) / 2"
proof -
  define e where "e = max (binexp x - 52) (- 1074)"
  define y where "y = x / 2 powi e"
  have p: "0 < (2::rat) powi e" by simp
  have x: "x = y * 2 powi e" by (simp add: y_def)
  have "fl x = of_int (round_half_even y) * 2 powi e"
    using assms by (simp add: fl_def e_def y_def Let_def)
  then have "fl x - x = (of_int (round_half_even y) - y) * 2 powi e"
    by (simp add: x algebra_simps)
  then have "\<bar>fl x - x\<bar> = \<bar>of_int (round_half_even y) - y\<bar> * 2 powi e"
    by (simp add: abs_mult)
  also have "\<dots> \<le> 1 / 2 * 2 powi e"
    using round_half_even_error [of y] p by (intro mult_right_mono) simp_all
  finally show ?thesis by (simp add: e_def)
qed

lemma fl_error_normal:
  assumes "2 powi (- 1022) \<le> \<bar>x\<bar>"
  shows "\<bar>fl x - x\<bar> \<le> \<bar>x\<bar> / 2 ^ 53"
proof -
  have "0 < (2::rat) powi (- 1022)" by simp
  then have "0 < \<bar>x\<bar>" using assms by (rule less_le_trans)
  then have nz: "x \<noteq> 0" by simp
  have "(2::rat) powi (- 1022) < 2 powi (binexp x + 1)"
    using assms binexp_upper [OF nz] by (rule le_less_trans)
  then have "- 1022 < binexp x + 1" by (rule powi_less_imp_less)
  then have e: "max (binexp x - 52) (- 1074) = binexp x - 52" by simp
  have "\<bar>fl x - x\<bar> \<le> 2 powi (binexp x - 52) / 2"
    using fl_error_exponent [OF nz] by (simp only: e)
  also have "\<dots> = 2 powi binexp x / 2 ^ 53"
    by (simp add: power_int_diff)
  also have "\<dots> \<le> \<bar>x\<bar> / 2 ^ 53"
    using binexp_lower [OF nz] by (simp add: divide_right_mono)
  finally show ?thesis .
qed

lemma fl_error:
  "\<bar>fl x - x\<bar> \<le> \<bar>x\<bar> / 2 ^ 53 + 1 / 2 ^ 1075"
proof (cases "x = 0")
  case True
  then show ?thesis by (simp add: fl_def)
next
  case nz: False
  show ?thesis
  proof (cases "- 1074 \<le> binexp x - 52")
    case True
    then have e: "max (binexp x - 52) (- 1074) = binexp x - 52" by simp
    have "\<bar>fl x - x\<bar> \<le> 2 powi (binexp x - 52) / 2"
      using fl_error_exponent [OF nz] by (simp only: e)
    also have "\<dots> = 2 powi binexp x / 2 ^ 53"
      by (simp add: power_int_diff)
    also have "\<dots> \<le> \<bar>x\<bar> / 2 ^ 53"
      using binexp_lower [OF nz] by (simp add: divide_right_mono)
    finally have "\<bar>fl x - x\<bar> \<le> \<bar>x\<bar> / 2 ^ 53" .
    moreover have "(0::rat) \<le> 1 / 2 ^ 1075" by simp
    ultimately show ?thesis by (rule add_increasing2 [rotated])
  next
    case False
    then have e: "max (binexp x - 52) (- 1074) = - 1074" by simp
    have "\<bar>fl x - x\<bar> \<le> 2 powi (- 1074) / 2"
      using fl_error_exponent [OF nz] by (simp only: e)
    also have "\<dots> = 1 / 2 ^ 1075"
      by (simp add: power_int_minus_divide)
    finally have "\<bar>fl x - x\<bar> \<le> 1 / 2 ^ 1075" .
    moreover have "0 \<le> \<bar>x\<bar> / 2 ^ 53" by simp
    ultimately show ?thesis by (rule add_increasing [rotated])
  qed
qed

lemma unit_roundoff_pos: "0 < unit_roundoff" and unit_roundoff_less: "unit_roundoff < 1"
  by (simp_all add: unit_roundoff_def)

lemma fl_between:
  assumes "2 powi (- 1022) \<le> x"
  shows "x * (1 - unit_roundoff) \<le> fl x \<and> fl x \<le> x * (1 + unit_roundoff)"
proof -
  have "0 < (2::rat) powi (- 1022)" by simp
  then have x: "0 < x" using assms by (rule less_le_trans)
  then have "\<bar>fl x - x\<bar> \<le> x / 2 ^ 53"
    using fl_error_normal [of x] assms by simp
  also have "\<dots> = x * unit_roundoff" by (simp add: unit_roundoff_def)
  finally have "\<bar>fl x - x\<bar> \<le> x * unit_roundoff" .
  then show ?thesis by (simp add: abs_le_iff algebra_simps)
qed

lemma fl_scaled:
  assumes l: "0 \<le> l" and lo: "t * l \<le> x" and hi: "x \<le> t * h"
    and n: "2 powi (- 1022) \<le> t * l"
  shows "t * (l * (1 - unit_roundoff)) \<le> fl x \<and> fl x \<le> t * (h * (1 + unit_roundoff))"
proof -
  have "2 powi (- 1022) \<le> x" using n lo by (rule order_trans)
  from fl_between [OF this]
  have 1: "x * (1 - unit_roundoff) \<le> fl x" and 2: "fl x \<le> x * (1 + unit_roundoff)" by blast+
  have "t * l * (1 - unit_roundoff) \<le> x * (1 - unit_roundoff)"
    using lo by (rule mult_right_mono) (use unit_roundoff_less in simp)
  also note 1
  finally have a: "t * (l * (1 - unit_roundoff)) \<le> fl x" by (simp only: mult.assoc)
  have "x * (1 + unit_roundoff) \<le> t * h * (1 + unit_roundoff)"
    using hi by (rule mult_right_mono) (use unit_roundoff_pos in simp)
  with 2 have "fl x \<le> t * h * (1 + unit_roundoff)" by (rule order_trans)
  then have b: "fl x \<le> t * (h * (1 + unit_roundoff))" by (simp only: mult.assoc)
  show ?thesis using a b ..
qed


lemma normal_enough:
  fixes t l :: rat
  assumes "1 / 2 ^ 40 \<le> t" and "1 / 2 \<le> l"
  shows "2 powi (- 1022) \<le> t * l"
proof -
  have "(2::rat) powi (- 1022) \<le> 1 / 2 ^ 40 * (1 / 2)"
    by (simp add: power_int_minus_divide)
  also have "\<dots> \<le> t * l" using assms by (intro mult_mono) simp_all
  finally show ?thesis .
qed

lemma floor_near:
  fixes y :: rat
  assumes "of_int n - 1 < y" and "y < of_int n + 1"
  shows "\<lfloor>y\<rfloor> = n \<or> \<lfloor>y\<rfloor> = n - 1"
proof (cases "of_int n \<le> y")
  case True
  then have "\<lfloor>y\<rfloor> = n" using assms(2) by (intro floor_unique) simp_all
  then show ?thesis ..
next
  case False
  then have "\<lfloor>y\<rfloor> = n - 1" using assms(1) by (intro floor_unique) simp_all
  then show ?thesis ..
qed

lemma roundoff_bounds:
  "1 / 2 \<le> 1 * (1 - unit_roundoff)"
  "1 / 2 \<le> 1 * (1 - unit_roundoff) * (1 - unit_roundoff)"
  "1 / 2 \<le> 1 * (1 - unit_roundoff) * (1 - unit_roundoff) * (1 - unit_roundoff)"
  "1 - 1 / 2 ^ 50 \<le> 1 * (1 - unit_roundoff) * (1 - unit_roundoff) * (1 - unit_roundoff) * (1 - unit_roundoff)"
  "1 * (1 + unit_roundoff) * (1 + unit_roundoff) * (1 + unit_roundoff) * (1 + unit_roundoff) \<le> 1 + 1 / 2 ^ 50"
  "1 * (1 + unit_roundoff) * (1 + unit_roundoff) * (1 + unit_roundoff) \<le> 2"
  by (simp_all add: unit_roundoff_def)

lemma fl_div_step:
  fixes t l h a w :: rat
  assumes "1 / 2 \<le> l" and "t * l \<le> a" and "a \<le> t * h" and "0 < w"
    and "1 / 2 ^ 40 \<le> t / w"
  shows "t / w * (l * (1 - unit_roundoff)) \<le> fl (a / w)
       \<and> fl (a / w) \<le> t / w * (h * (1 + unit_roundoff))"
proof (rule fl_scaled)
  show "0 \<le> l" using assms(1) by simp
  have "t * l / w \<le> a / w" using assms(2,4) by (simp add: divide_right_mono)
  then show "t / w * l \<le> a / w" by simp
  have "a / w \<le> t * h / w" using assms(3,4) by (simp add: divide_right_mono)
  then show "a / w \<le> t / w * h" by simp
  show "2 powi (- 1022) \<le> t / w * l" using assms(5,1) by (rule normal_enough)
qed

lemma fl_mul_step:
  fixes t l h a r :: rat
  assumes "1 / 2 \<le> l" and "t * l \<le> a" and "a \<le> t * h" and "0 < r"
    and "1 / 2 ^ 40 \<le> r * t"
  shows "r * t * (l * (1 - unit_roundoff)) \<le> fl (r * a)
       \<and> fl (r * a) \<le> r * t * (h * (1 + unit_roundoff))"
proof (rule fl_scaled)
  show "0 \<le> l" using assms(1) by simp
  have "r * (t * l) \<le> r * a" using assms(2,4) by (simp add: mult_left_mono)
  then show "r * t * l \<le> r * a" by (simp add: mult.assoc)
  have "r * a \<le> r * (t * h)" using assms(3,4) by (simp add: mult_left_mono)
  then show "r * a \<le> r * t * h" by (simp add: mult.assoc)
  show "2 powi (- 1022) \<le> r * t * l" using assms(5,1) by (rule normal_enough)
qed

lemma roundtrip_product:
  fixes R W C n :: int and N :: nat
  assumes R: "0 < R" "R \<le> 2 ^ 32" and W: "1 \<le> W" "W \<le> 4" and C: "1 \<le> C" "C \<le> 2"
    and N: "int N = C * W * n" and n: "1 \<le> n" "n \<le> 2 ^ 40"
  defines "d \<equiv> fl (fl (fl (of_int (int N) / of_int R) / of_int W) / of_int C)"
  shows "of_int n - 1 < fl (of_int R * d) \<and> fl (of_int R * d) < of_int n + 1
       \<and> 0 \<le> of_int R * d \<and> of_int R * d \<le> 2 ^ 64"
proof -
  let ?u = unit_roundoff
  let ?R = "of_int R :: rat" and ?W = "of_int W :: rat" and ?C = "of_int C :: rat"
  let ?n = "of_int n :: rat"
  define t0 where "t0 = of_int (int N) / ?R"
  have Rp: "0 < ?R" "?R \<le> 2 ^ 32"
    using R(1) apply simp
    using R(2) by (metis of_int_le_iff of_int_numeral of_int_power)
  have Wp: "0 < ?W" "1 \<le> ?W" using W(1) by simp_all
  have Cp: "0 < ?C" "1 \<le> ?C" using C(1) by simp_all
  have np: "1 \<le> ?n" using n(1) by simp
  have np2: "?n \<le> 2 ^ 40" using n(2) by (metis of_int_le_iff of_int_numeral of_int_power)
  have "(of_int (int N) :: rat) = of_int (C * W * n)" by (simp only: N)
  then have Nn: "(of_nat N :: rat) = ?C * ?W * ?n" by simp
  have t2n: "?R * (t0 / ?W / ?C) = ?n"
    using Rp(1) Wp(1) Cp(1) by (simp add: t0_def Nn)
  have t2: "1 / 2 ^ 40 \<le> t0 / ?W / ?C"
  proof -
    have "1 / 2 ^ 40 \<le> 1 / (2 ^ 32 :: rat)" by simp
    also have "\<dots> \<le> 1 / ?R" using Rp by (intro divide_left_mono) simp_all
    also have "\<dots> \<le> ?n / ?R" using np Rp(1) by (simp add: divide_right_mono)
    also have "\<dots> = t0 / ?W / ?C" using Rp(1) Wp(1) Cp(1) by (simp add: t0_def Nn)
    finally show ?thesis .
  qed
  have "0 < ?C * ?W * ?n" using Cp(1) Wp(1) np by (intro mult_pos_pos) simp_all
  then have "0 < (of_nat N :: rat)" by (simp only: Nn)
  then have pos0: "0 < t0" using Rp(1) by (simp add: t0_def)
  have pos1: "0 < t0 / ?W" using pos0 Wp(1) by simp
  have t1: "1 / 2 ^ 40 \<le> t0 / ?W"
  proof -
    have "t0 / ?W / ?C \<le> t0 / ?W / 1"
      using Cp(2) pos1 by (intro divide_left_mono) simp_all
    then have "t0 / ?W / ?C \<le> t0 / ?W" by (simp only: div_by_1)
    with t2 show ?thesis by (rule order_trans)
  qed
  have t0: "1 / 2 ^ 40 \<le> t0 / 1"
  proof -
    have "t0 / ?W \<le> t0 / 1"
      using Wp(2) pos0 by (intro divide_left_mono) simp_all
    with t1 show ?thesis by (rule order_trans)
  qed
  have s1: "t0 / 1 * (1 * (1 - ?u)) \<le> fl (t0 / 1) \<and> fl (t0 / 1) \<le> t0 / 1 * (1 * (1 + ?u))"
    by (rule fl_div_step [OF _ _ _ _ t0]) simp_all
  then have s1': "t0 * (1 * (1 - ?u)) \<le> fl t0" "fl t0 \<le> t0 * (1 * (1 + ?u))" by simp_all
  have s2: "t0 / ?W * (1 * (1 - ?u) * (1 - ?u)) \<le> fl (fl t0 / ?W)
       \<and> fl (fl t0 / ?W) \<le> t0 / ?W * (1 * (1 + ?u) * (1 + ?u))"
    by (rule fl_div_step [OF roundoff_bounds(1) s1' Wp(1) t1])
  have s3: "t0 / ?W / ?C * (1 * (1 - ?u) * (1 - ?u) * (1 - ?u)) \<le> fl (fl (fl t0 / ?W) / ?C)
       \<and> fl (fl (fl t0 / ?W) / ?C) \<le> t0 / ?W / ?C * (1 * (1 + ?u) * (1 + ?u) * (1 + ?u))"
    by (rule fl_div_step [OF roundoff_bounds(2) conjunct1 [OF s2] conjunct2 [OF s2] Cp(1) t2])
  have dd: "d = fl (fl (fl t0 / ?W) / ?C)" by (simp add: d_def t0_def)
  have rn: "1 / 2 ^ 40 \<le> ?R * (t0 / ?W / ?C)" unfolding t2n using np by simp
  have s4: "?R * (t0 / ?W / ?C) * (1 * (1 - ?u) * (1 - ?u) * (1 - ?u) * (1 - ?u)) \<le> fl (?R * d)
       \<and> fl (?R * d) \<le> ?R * (t0 / ?W / ?C) * (1 * (1 + ?u) * (1 + ?u) * (1 + ?u) * (1 + ?u))"
    unfolding dd
    by (rule fl_mul_step [OF roundoff_bounds(3) conjunct1 [OF s3] conjunct2 [OF s3] Rp(1) rn])
  have small: "?n / 2 ^ 50 < 1" using np2 by simp
  have "?n * (1 - 1 / 2 ^ 50) \<le> ?n * (1 * (1 - ?u) * (1 - ?u) * (1 - ?u) * (1 - ?u))"
    using np by (intro mult_left_mono roundoff_bounds(4)) simp
  also have "\<dots> \<le> fl (?R * d)" using s4 unfolding t2n by blast
  finally have lo: "?n - 1 < fl (?R * d)" using small by (simp add: algebra_simps)
  have "fl (?R * d) \<le> ?n * (1 * (1 + ?u) * (1 + ?u) * (1 + ?u) * (1 + ?u))"
    using s4 unfolding t2n by blast
  also have "\<dots> \<le> ?n * (1 + 1 / 2 ^ 50)"
    using np by (intro mult_left_mono roundoff_bounds(5)) simp
  finally have hi: "fl (?R * d) < ?n + 1" using small by (simp add: algebra_simps)
  have "(0::rat) \<le> 1 / 2 ^ 40" by simp
  then have p2: "0 \<le> t0 / ?W / ?C" using t2 by (rule order_trans)
  have l3: "0 \<le> 1 * (1 - ?u) * (1 - ?u) * (1 - ?u)" using roundoff_bounds(3) by linarith
  have "0 \<le> t0 / ?W / ?C * (1 * (1 - ?u) * (1 - ?u) * (1 - ?u))"
    using p2 l3 by (rule mult_nonneg_nonneg)
  then have d0: "0 \<le> d" unfolding dd using s3 by linarith
  have "?R * d \<le> ?R * (t0 / ?W / ?C * (1 * (1 + ?u) * (1 + ?u) * (1 + ?u)))"
    unfolding dd using s3 Rp(1) by (intro mult_left_mono) simp_all
  also have "\<dots> = ?R * (t0 / ?W / ?C) * (1 * (1 + ?u) * (1 + ?u) * (1 + ?u))"
    by (rule mult.assoc [symmetric])
  also have "\<dots> = ?n * (1 * (1 + ?u) * (1 + ?u) * (1 + ?u))"
    by (simp only: t2n)
  also have "\<dots> \<le> ?n * 2"
    using np by (intro mult_left_mono roundoff_bounds(6)) simp
  also have "\<dots> \<le> 2 ^ 64" using np2 by simp
  finally have ub: "?R * d \<le> 2 ^ 64" .
  have "0 \<le> ?R * d" using d0 Rp(1) by simp
  then show ?thesis using lo hi ub by simp
qed

section \<open>Sample: the lock, append and cut\<close>

lemma not_fl_overflows: "\<bar>x\<bar> \<le> 2 ^ 64 \<Longrightarrow> \<not> fl_overflows x"
  by (simp add: fl_overflows_def)

lemma float_of_int_small: "\<bar>n\<bar> < 2 ^ 53 \<Longrightarrow> float_of_int n = Inr (of_int n)"
proof -
  assume n: "\<bar>n\<bar> < 2 ^ 53"
  then have "\<bar>n\<bar> \<le> 2 ^ 64" by simp
  then have "(of_int \<bar>n\<bar> :: rat) \<le> of_int (2 ^ 64)" by (simp only: of_int_le_iff)
  then have "\<bar>of_int n :: rat\<bar> \<le> 2 ^ 64" by simp
  then show ?thesis using n by (simp add: float_of_int_def not_fl_overflows fl_of_int)
qed


lemma frame_idx_eval:
  assumes "\<bar>samplerate s\<bar> < 2 ^ 53"
    and "\<bar>of_int (samplerate s) * seconds\<bar> \<le> 2 ^ 64"
  shows "frame_idx s seconds =
           Inr (nchannels s * sampwidth s * py_int (fl (of_int (samplerate s) * seconds)))"
  using assms
  by (simp add: frame_idx_def float_of_int_small bindE_def not_fl_overflows float_mul_def)

text \<open>
  C2. Every mutating method of a locked Sample (normalize, make_32bit, make_16bit, amplify_max,
  amplify, cut, append, mix, mix_at) raises at its first statement, the assertion that the
  Sample is not locked, and leaves the object as it was.
\<close>

theorem locked_sample_rejects_mutation:
  assumes "locked s"
  shows "normalize_sample rcv s = Inl (AssertionError, s)
       \<and> make_32bit s scale_amplitude = Inl (AssertionError, s)
       \<and> make_16bit s maximize_amplitude = Inl (AssertionError, s)
       \<and> amplify_max s = Inl (AssertionError, s)
       \<and> amplify s factor = Inl (AssertionError, s)
       \<and> cut_sample s start_seconds end_seconds = Inl (AssertionError, s)
       \<and> append_sample s seconds = Inl (AssertionError, s)
       \<and> mix s other other_seconds pad_shortest = Inl (AssertionError, s)
       \<and> mix_at s seconds other other_seconds = Inl (AssertionError, s)"
  using assms
  by (simp add: normalize_sample_def make_32bit_def make_16bit_def amplify_max_def amplify_def
      cut_sample_def append_sample_def mix_def mix_at_def)


theorem locked_sample_rejects_mutation_witness:
  "locked (lock (cd_stereo [1, 2, 3, 4]))
   \<and> normalize_sample (\<lambda>f w c i r. Inr f) (lock (cd_stereo [1, 2, 3, 4]))
       = Inl (AssertionError, lock (cd_stereo [1, 2, 3, 4]))
   \<and> make_32bit (lock (cd_stereo [1, 2, 3, 4])) True
       = Inl (AssertionError, lock (cd_stereo [1, 2, 3, 4]))
   \<and> make_16bit (lock (cd_stereo [1, 2, 3, 4])) True
       = Inl (AssertionError, lock (cd_stereo [1, 2, 3, 4]))
   \<and> amplify_max (lock (cd_stereo [1, 2, 3, 4]))
       = Inl (AssertionError, lock (cd_stereo [1, 2, 3, 4]))
   \<and> amplify (lock (cd_stereo [1, 2, 3, 4])) 2
       = Inl (AssertionError, lock (cd_stereo [1, 2, 3, 4]))
   \<and> cut_sample (lock (cd_stereo [1, 2, 3, 4])) 0 1
       = Inl (AssertionError, lock (cd_stereo [1, 2, 3, 4]))
   \<and> append_sample (lock (cd_stereo [1, 2, 3, 4])) 1
       = Inl (AssertionError, lock (cd_stereo [1, 2, 3, 4]))
   \<and> mix (lock (cd_stereo [1, 2, 3, 4])) (cd_stereo [5, 6, 7, 8]) None True
       = Inl (AssertionError, lock (cd_stereo [1, 2, 3, 4]))
   \<and> mix_at (lock (cd_stereo [1, 2, 3, 4])) 1 (cd_stereo [5, 6, 7, 8]) None
       = Inl (AssertionError, lock (cd_stereo [1, 2, 3, 4]))"
proof -
  have l: "locked (lock (cd_stereo [1, 2, 3, 4]))" by (simp add: lock_def)
  show ?thesis
    using l locked_sample_rejects_mutation [OF l] by simp
qed

text \<open>
  C9, as stated: append with a negative number of seconds raises. It does not: on a 4-byte
  Sample, \<^verbatim>\<open>append(-1.0)\<close> returns normally and the buffer is unchanged.
\<close>

theorem append_negative_counterexample:
  "append_sample (cd_stereo [1, 2, 3, 4]) (- 1) = Inr (cd_stereo [1, 2, 3, 4])"
proof -
  have "frame_idx (cd_stereo [1, 2, 3, 4]) (- 1) = Inr (- 176400)"
    using fl_of_int [of "- 44100"]
    by (simp add: frame_idx_eval cd_stereo_def py_int_def)
  then show ?thesis
    by (simp add: append_sample_def raising_def get_frames_def zeros_def cd_stereo_def)
qed

lemma py_int_nonpos: "x \<le> 0 \<Longrightarrow> py_int x \<le> 0"
  by (auto simp: py_int_def ceiling_le_iff)

lemma frame_idx_nonpos:
  assumes "frame_idx s seconds = Inr k" and "0 \<le> samplerate s"
    and "0 \<le> nchannels s * sampwidth s" and "seconds \<le> 0"
  shows "k \<le> 0"
proof -
  obtain rate where r: "float_of_int (samplerate s) = Inr rate"
    and k: "k = nchannels s * sampwidth s * py_int (float_mul rate seconds)"
    using assms(1) by (auto simp: frame_idx_def bindE_def split: sum.splits if_splits)
  have "rate = fl (of_int (samplerate s))"
    using r by (auto simp: float_of_int_def split: if_splits)
  then have "0 \<le> rate" using assms(2) by (simp add: fl_nonneg)
  then have "rate * seconds \<le> 0" using assms(4) by (simp add: mult_le_0_iff)
  then have "py_int (float_mul rate seconds) \<le> 0"
    by (simp add: float_mul_def fl_nonpos py_int_nonpos)
  then show ?thesis using assms(3) by (simp add: k mult_le_0_iff)
qed

text \<open>
  C9, amended: on an unlocked Sample with a non-negative rate and frame size, append with
  negative seconds, where the frame index is computed without overflow, returns normally and
  leaves the Sample as it was: \<^verbatim>\<open>b"\0" * n\<close> is empty for \<open>n \<le> 0\<close>.
\<close>

theorem append_negative_is_noop:
  assumes "\<not> locked s" and "frames s = Some f"
    and "0 \<le> samplerate s" and "0 \<le> nchannels s * sampwidth s"
    and "seconds < 0" and "frame_idx s seconds = Inr k"
  shows "append_sample s seconds = Inr s"
proof -
  have "k \<le> 0" using frame_idx_nonpos [OF assms(6) assms(3) assms(4)] assms(5) by simp
  then have "zeros k = []" by (simp add: zeros_def)
  then show ?thesis
    using assms(1,2,6) by (simp add: append_sample_def raising_def get_frames_def)
qed

theorem append_negative_is_noop_witness:
  "\<not> locked (cd_stereo [1, 2, 3, 4]) \<and> frames (cd_stereo [1, 2, 3, 4]) = Some [1, 2, 3, 4]
   \<and> 0 \<le> samplerate (cd_stereo [1, 2, 3, 4])
   \<and> 0 \<le> nchannels (cd_stereo [1, 2, 3, 4]) * sampwidth (cd_stereo [1, 2, 3, 4])
   \<and> (- 1 / 2 :: rat) < 0
   \<and> frame_idx (cd_stereo [1, 2, 3, 4]) (- 1 / 2) = Inr (- 88200)
   \<and> append_sample (cd_stereo [1, 2, 3, 4]) (- 1 / 2) = Inr (cd_stereo [1, 2, 3, 4])"
proof -
  have k: "frame_idx (cd_stereo [1, 2, 3, 4]) (- 1 / 2) = Inr (- 88200)"
    using fl_of_int [of "- 22050"]
    by (simp add: frame_idx_eval cd_stereo_def py_int_def)
  have "append_sample (cd_stereo [1, 2, 3, 4]) (- 1 / 2) = Inr (cd_stereo [1, 2, 3, 4])"
    by (rule append_negative_is_noop [OF _ _ _ _ _ k]) (simp_all add: cd_stereo_def)
  then show ?thesis using k by (simp add: cd_stereo_def)
qed

text \<open>
  C3. cut(start, end) is to leave the bytes from frame_idx(start) to frame_idx(end). When
  frame_idx(end) equals the buffer length the source skips the slice altogether: on half
  a second of audio (88200 bytes), \<^verbatim>\<open>cut(0.25, 0.5)\<close> returns the Sample unchanged, with its
  first 44100 bytes still there, where the slice is the last 44100 bytes.
\<close>

theorem cut_to_end_keeps_prefix:
  "cut_sample (cd_stereo (replicate 44100 1 @ replicate 44100 2)) (1 / 4) (1 / 2)
     = Inr (cd_stereo (replicate 44100 1 @ replicate 44100 2))
   \<and> frame_idx (cd_stereo (replicate 44100 1 @ replicate 44100 2)) (1 / 4) = Inr 44100
   \<and> frame_idx (cd_stereo (replicate 44100 1 @ replicate 44100 2)) (1 / 2) = Inr 88200
   \<and> py_slice (replicate 44100 1 @ replicate 44100 2) (Some 44100) (Some 88200)
       = replicate 44100 (2 :: byte)
   \<and> replicate 44100 1 @ replicate 44100 2 \<noteq> replicate 44100 (2 :: byte)"
proof -
  let ?f = "replicate 44100 1 @ replicate 44100 (2 :: byte)"
  have s: "frame_idx (cd_stereo ?f) (1 / 4) = Inr 44100"
    using fl_of_int [of 11025] by (simp add: frame_idx_eval cd_stereo_def py_int_def)
  have e: "frame_idx (cd_stereo ?f) (1 / 2) = Inr 88200"
    using fl_of_int [of 22050] by (simp add: frame_idx_eval cd_stereo_def py_int_def)
  have c: "cut_sample (cd_stereo ?f) (1 / 4) (1 / 2) = Inr (cd_stereo ?f)"
    by (simp add: cut_sample_def s e raising_def get_frames_def) (simp add: cd_stereo_def)
  have p: "py_slice ?f (Some 44100) (Some 88200) = replicate 44100 (2 :: byte)"
    by (simp add: py_slice_def slice_index_def)
  have "length ?f \<noteq> length (replicate 44100 (2 :: byte))" by simp
  then have n: "?f \<noteq> replicate 44100 (2 :: byte)" by metis
  show ?thesis using s e c p n by simp
qed

section \<open>Sample: mixing and normalizing\<close>

lemma length_setrawsample [simp]: "length (setrawsample w v) = w"
  by (induction w arbitrary: v) simp_all

lemma length_concat_fixed:
  assumes "\<And>x. length (f x) = w"
  shows "length (concat (map f xs)) = w * length xs"
  by (induction xs) (simp_all add: assms)

lemma length_sample_offsets [simp]: "length (sample_offsets len w) = len div w"
  by (simp add: sample_offsets_def)

lemma check_parameters_ok:
  "audioop_check_parameters len w = Inr u \<longleftrightarrow> 1 \<le> w \<and> w \<le> 4 \<and> int len mod w = 0"
  by (auto simp: audioop_check_parameters_def audioop_check_size_def bindE_def)

lemma c_int_width: "1 \<le> w \<Longrightarrow> w \<le> 4 \<Longrightarrow> c_int w = Inr w"
  by (simp add: c_int_def)

lemma whole_samples:
  assumes "1 \<le> w" and "int len mod w = 0"
  shows "nat w * (len div nat w) = len"
proof -
  have "w dvd int len" using assms(2) by (simp add: dvd_eq_mod_eq_0)
  then have "int (nat w) dvd int len" using assms(1) by simp
  then have "nat w dvd len" by (simp only: int_dvd_int_iff)
  then show ?thesis by (rule dvd_mult_div_cancel)
qed

lemma audioop_add_Inr:
  assumes "audioop_add a b w = Inr r"
  shows "1 \<le> w \<and> w \<le> 4 \<and> int (length a) mod w = 0 \<and> length a = length b"
proof -
  from assms have c: "c_int w = Inr w"
    by (cases "c_int w") (auto simp: audioop_add_def bindE_def c_int_def split: if_splits)
  from assms c obtain u where p: "audioop_check_parameters (length a) w = Inr u"
    by (cases "audioop_check_parameters (length a) w") (auto simp: audioop_add_def bindE_def)
  from assms c p have "length a = length b"
    by (cases "length a = length b") (simp_all add: audioop_add_def bindE_def)
  then show ?thesis using p by (simp add: check_parameters_ok)
qed

lemma audioop_add_valid:
  assumes "1 \<le> w" and "w \<le> 4" and "int (length a) mod w = 0" and "length a = length b"
  shows "audioop_add a b w =
           Inr (concat (map (\<lambda>i.
                  setrawsample (nat w)
                    (add_sample (nat w) (getrawsample (nat w) a i) (getrawsample (nat w) b i)))
                (sample_offsets (length a) (nat w))))"
proof -
  have "audioop_check_parameters (length a) w = Inr ()"
    using assms by (simp add: check_parameters_ok)
  then show ?thesis
    using assms by (simp add: audioop_add_def bindE_def c_int_width)
qed

lemma audioop_add_length:
  assumes "audioop_add a b w = Inr r"
  shows "length r = length a"
proof -
  from audioop_add_Inr [OF assms]
  have v: "1 \<le> w" "w \<le> 4" "int (length a) mod w = 0" "length a = length b"
    by blast+
  have "length r = nat w * (length a div nat w)"
    using assms unfolding audioop_add_valid [OF v]
    by (auto simp: length_concat_fixed)
  then show ?thesis using whole_samples [OF v(1) v(3)] by simp
qed

lemma audioop_add_ok:
  assumes "1 \<le> w" and "w \<le> 4" and "int (length a) mod w = 0" and "length a = length b"
  shows "\<exists>r. audioop_add a b w = Inr r"
  using audioop_add_valid [OF assms] by simp

lemma add_sample_commute: "add_sample w x y = add_sample w y x"
  by (simp add: add_sample_def Let_def add.commute float_add_def)

lemma audioop_add_commute:
  assumes "length a = length b"
  shows "audioop_add a b w = audioop_add b a w"
proof -
  have "(\<lambda>i. setrawsample n (add_sample n (getrawsample n a i) (getrawsample n b i))) =
        (\<lambda>i. setrawsample n (add_sample n (getrawsample n b i) (getrawsample n a i)))" for n
    by (rule ext) (simp only: add_sample_commute [of n "getrawsample n a _"])
  then show ?thesis
    using assms by (simp add: audioop_add_def)
qed

lemma length_zeros [simp]: "length (zeros k) = nat k"
  by (simp add: zeros_def)

lemma mix_join_frames_append [simp]: "mix_join_frames pre mid post = pre @ mid @ post"
  by (simp add: mix_join_frames_def)

lemma zeros_nonpos [simp]: "k \<le> 0 \<Longrightarrow> zeros k = []"
  by (simp add: zeros_def)

lemma mix_padded:
  assumes "\<not> locked A"
    and "sampwidth A = sampwidth B" and "samplerate A = samplerate B"
    and "nchannels A = nchannels B"
    and "frames A = Some a" and "frames B = Some b"
  shows "mix A B None True =
           raising A
             (audioop_add (a @ zeros (int (length b) - int (length a)))
                (b @ zeros (int (length a) - int (length b))) (sampwidth A))
             (\<lambda>f'. Inr (A\<lparr>frames := Some f'\<rparr>))"
  using assms
  by (simp add: mix_def other_frames_of_def truthy_def raising_def need_bytes_def)

lemma mod_max:
  assumes "int m mod w = 0" and "int n mod w = 0"
  shows "int (max m n) mod w = 0"
  using assms by (simp add: max_def)

text \<open>
  C8. Two unlocked Samples of one format, with valid width (1 to 4 bytes) and whole samples
  in their buffers: mix with \<open>pad_shortest\<close> returns a buffer as long as the longer of the
  two, and when the two lengths are equal A.mix(B) and B.mix(A) leave the same bytes.
\<close>

theorem mix_pads_and_commutes:
  assumes "\<not> locked A" and "\<not> locked B"
    and "sampwidth A = sampwidth B" and "samplerate A = samplerate B"
    and "nchannels A = nchannels B"
    and "frames A = Some a" and "frames B = Some b"
    and "1 \<le> sampwidth A" and "sampwidth A \<le> 4"
    and "int (length a) mod sampwidth A = 0" and "int (length b) mod sampwidth A = 0"
  shows "\<exists>a'. mix A B None True = Inr (A\<lparr>frames := Some a'\<rparr>)
            \<and> length a' = max (length a) (length b)
            \<and> (length a = length b \<longrightarrow> mix B A None True = Inr (B\<lparr>frames := Some a'\<rparr>))"
proof -
  let ?pa = "a @ zeros (int (length b) - int (length a))"
  let ?pb = "b @ zeros (int (length a) - int (length b))"
  have la: "length ?pa = max (length a) (length b)" by (simp add: max_def nat_diff_distrib')
  have lb: "length ?pb = max (length a) (length b)" by (simp add: max_def nat_diff_distrib')
  have "int (length ?pa) mod sampwidth A = 0"
    unfolding la using assms(10,11) by (rule mod_max)
  then obtain a' where a': "audioop_add ?pa ?pb (sampwidth A) = Inr a'"
    using audioop_add_ok [OF assms(8,9), of ?pa ?pb] la lb by auto
  have 1: "mix A B None True = Inr (A\<lparr>frames := Some a'\<rparr>)"
    using mix_padded [OF assms(1) assms(3-7)] a' by (simp add: raising_def)
  have 2: "length a' = max (length a) (length b)"
    using audioop_add_length [OF a'] la by simp
  have 3: "mix B A None True = Inr (B\<lparr>frames := Some a'\<rparr>)" if eq: "length a = length b"
  proof -
    have "audioop_add b a (sampwidth B) = audioop_add a b (sampwidth A)"
      using eq assms(3) audioop_add_commute [of b a] by simp
    also have "\<dots> = Inr a'" using a' eq by simp
    finally show ?thesis
      using mix_padded [OF assms(2) assms(3-5) [symmetric] assms(7) assms(6)] eq
      by (simp add: raising_def)
  qed
  show ?thesis using 1 2 3 by blast
qed

theorem mix_pads_and_commutes_witness:
  "\<not> locked (cd_stereo [1, 0, 2, 0]) \<and> \<not> locked (cd_stereo [3, 0, 255, 127])
   \<and> sampwidth (cd_stereo [1, 0, 2, 0]) = sampwidth (cd_stereo [3, 0, 255, 127])
   \<and> samplerate (cd_stereo [1, 0, 2, 0]) = samplerate (cd_stereo [3, 0, 255, 127])
   \<and> nchannels (cd_stereo [1, 0, 2, 0]) = nchannels (cd_stereo [3, 0, 255, 127])
   \<and> 1 \<le> sampwidth (cd_stereo [1, 0, 2, 0]) \<and> sampwidth (cd_stereo [1, 0, 2, 0]) \<le> 4
   \<and> int (length [1, 0, 2, 0 :: byte]) mod sampwidth (cd_stereo [1, 0, 2, 0]) = 0
   \<and> int (length [3, 0, 255, 127 :: byte]) mod sampwidth (cd_stereo [1, 0, 2, 0]) = 0
   \<and> length [1, 0, 2, 0 :: byte] = length [3, 0, 255, 127 :: byte]
   \<and> mix (cd_stereo [1, 0, 2, 0]) (cd_stereo [3, 0, 255, 127]) None True
       = Inr (cd_stereo [4, 0, 255, 127])
   \<and> mix (cd_stereo [3, 0, 255, 127]) (cd_stereo [1, 0, 2, 0]) None True
       = Inr (cd_stereo [4, 0, 255, 127])"
proof -
  let ?A = "cd_stereo [1, 0, 2, 0]" and ?B = "cd_stereo [3, 0, 255, 127]"
  have m: "mix ?A ?B None True = Inr (cd_stereo [4, 0, 255, 127])" by code_simp
  have "\<exists>a'. mix ?A ?B None True = Inr (?A\<lparr>frames := Some a'\<rparr>)
           \<and> length a' = max (length [1, 0, 2, 0 :: byte]) (length [3, 0, 255, 127 :: byte])
           \<and> (length [1, 0, 2, 0 :: byte] = length [3, 0, 255, 127 :: byte]
                \<longrightarrow> mix ?B ?A None True = Inr (?B\<lparr>frames := Some a'\<rparr>))"
    by (rule mix_pads_and_commutes) (simp_all add: cd_stereo_def)
  then obtain a' where 1: "mix ?A ?B None True = Inr (?A\<lparr>frames := Some a'\<rparr>)"
    and 2: "mix ?B ?A None True = Inr (?B\<lparr>frames := Some a'\<rparr>)"
    by auto
  from 1 m have "a' = [4, 0, 255, 127]" by (simp add: cd_stereo_def)
  with 2 have "mix ?B ?A None True = Inr (cd_stereo [4, 0, 255, 127])"
    by (simp add: cd_stereo_def)
  with m show ?thesis by (simp add: cd_stereo_def)
qed



lemma py_slice_middle:
  "0 \<le> i \<Longrightarrow> i \<le> j \<Longrightarrow> py_slice xs (Some i) (Some j) = take (nat j - nat i) (drop (nat i) xs)"
  by (auto simp: py_slice_def slice_index_def min_def Let_def)



text \<open>
  C7. normalize is idempotent: when it returns, a second call returns the same Sample, in
  every attribute; the rate is then 44100 and the width 2, and the channel count is 2 when
  it was 1 or 2 (the counts a Sample loaded from a wave file has).
\<close>

theorem normalize_idempotent:
  assumes "normalize_sample rcv s = Inr s'"
  shows "normalize_sample rcv s' = Inr s'
       \<and> samplerate s' = 44100 \<and> sampwidth s' = 2
       \<and> (nchannels s = 1 \<or> nchannels s = 2 \<longrightarrow> nchannels s' = 2)"
proof -
  from assms have l: "\<not> locked s"
    by (auto simp: normalize_sample_def split: if_splits)
  from assms l obtain s1 s2 where
    1: "(if samplerate s \<noteq> norm_samplerate then
             raising s (bindE (get_frames s) (\<lambda>f.
                          rcv f (sampwidth s) (nchannels s) (samplerate s) norm_samplerate))
               (\<lambda>f'. Inr (s\<lparr>frames := Some f', samplerate := norm_samplerate\<rparr>))
           else Inr s) = Inr s1"
    and 2: "(if sampwidth s1 \<noteq> norm_sampwidth then
             raising s1 (bindE (get_frames s1) (\<lambda>f.
                           audioop_lin2lin f (sampwidth s1) norm_sampwidth))
               (\<lambda>f'. Inr (s1\<lparr>frames := Some f', sampwidth := norm_sampwidth\<rparr>))
           else Inr s1) = Inr s2"
    and 3: "(if nchannels s2 = 1 then
            raising s2 (bindE (get_frames s2) (\<lambda>f. audioop_tostereo f (sampwidth s2) 1 1))
              (\<lambda>f'. Inr (s2\<lparr>frames := Some f', nchannels := 2\<rparr>))
          else Inr s2) = Inr s'"
    unfolding normalize_sample_def bindM_def by (auto split: sum.splits if_splits)
  from 1 have a1: "samplerate s1 = 44100 \<and> locked s1 = locked s \<and> nchannels s1 = nchannels s"
    by (auto simp: raising_def norm_samplerate_def split: if_splits sum.splits)
  from 2 have a2: "sampwidth s2 = 2 \<and> samplerate s2 = samplerate s1 \<and> locked s2 = locked s1
      \<and> nchannels s2 = nchannels s1"
    by (auto simp: raising_def norm_sampwidth_def split: if_splits sum.splits)
  from 3 have a3: "nchannels s' \<noteq> 1 \<and> sampwidth s' = sampwidth s2 \<and> samplerate s' = samplerate s2
      \<and> locked s' = locked s2 \<and> (nchannels s2 = 1 \<or> nchannels s2 = 2 \<longrightarrow> nchannels s' = 2)"
    by (auto simp: raising_def split: if_splits sum.splits)
  have "normalize_sample rcv s' = Inr s'"
    using a1 a2 a3 l
    by (simp add: normalize_sample_def bindM_def norm_samplerate_def norm_sampwidth_def)
  then show ?thesis using a1 a2 a3 by simp
qed

theorem normalize_idempotent_witness:
  "normalize_sample no_ratecv (mono24 [1, 2, 3]) = Inr (cd_stereo [2, 3, 2, 3])
   \<and> (nchannels (mono24 [1, 2, 3]) = 1 \<or> nchannels (mono24 [1, 2, 3]) = 2)
   \<and> normalize_sample no_ratecv (cd_stereo [2, 3, 2, 3]) = Inr (cd_stereo [2, 3, 2, 3])
   \<and> samplerate (cd_stereo [2, 3, 2, 3]) = 44100 \<and> sampwidth (cd_stereo [2, 3, 2, 3]) = 2
   \<and> nchannels (cd_stereo [2, 3, 2, 3]) = 2"
proof -
  have n: "normalize_sample no_ratecv (mono24 [1, 2, 3]) = Inr (cd_stereo [2, 3, 2, 3])"
    by code_simp
  have c: "nchannels (mono24 [1, 2, 3]) = 1" by (simp add: mono24_def)
  show ?thesis using n c normalize_idempotent [OF n] by simp
qed

section \<open>Mixer: construction\<close>

lemma check_bars_Cons_Inr:
  "check_bars ins tks n ((i, b) # p) = Inr u \<longleftrightarrow>
     ins i \<noteq> None \<and> tks \<noteq> 0 \<and> int (length b) mod tks = 0 \<and> (n = 0 \<or> n = length b)
     \<and> check_bars ins tks (length b) p = Inr u"
  by auto

lemma check_bars_Cons_Inl:
  assumes "check_bars ins tks n ((i, b) # p) = Inl e" and "tks \<noteq> 0"
  shows "(\<exists>msg. e = ValueError msg) \<or> check_bars ins tks (length b) p = Inl e"
  using assms by (auto split: if_splits)

lemma check_bars_error:
  assumes "tks \<noteq> 0" and "check_bars ins tks n p = Inl e"
  shows "\<exists>msg. e = ValueError msg"
  using assms(2)
proof (induction p arbitrary: n)
  case Nil
  then show ?case by simp
next
  case (Cons x p)
  obtain i b where x: "x = (i, b)" by (cases x)
  from check_bars_Cons_Inl [OF Cons.prems [unfolded x] assms(1)] Cons.IH
  show ?case by blast
qed

lemma check_bars_each:
  assumes "check_bars ins tks n p = Inr u" and "(i, b) \<in> set p"
  shows "ins i \<noteq> None \<and> int (length b) mod tks = 0"
  using assms
proof (induction p arbitrary: n)
  case Nil
  then show ?case by simp
next
  case (Cons x p)
  obtain j c where x: "x = (j, c)" by (cases x)
  from Cons.prems(1) have h: "ins j \<noteq> None" "int (length c) mod tks = 0"
    "check_bars ins tks (length c) p = Inr u"
    unfolding x check_bars_Cons_Inr by blast+
  from Cons.prems(2) have "(i, b) = (j, c) \<or> (i, b) \<in> set p" unfolding x by simp
  then show ?case using h Cons.IH [OF h(3)] by blast
qed

lemma check_bars_fixed_length:
  assumes "check_bars ins tks n p = Inr u" and "0 < n" and "(i, b) \<in> set p"
  shows "length b = n"
  using assms
proof (induction p arbitrary: n)
  case Nil
  then show ?case by simp
next
  case (Cons x p)
  obtain j c where x: "x = (j, c)" by (cases x)
  from Cons.prems(1,2) have h: "length c = n" "check_bars ins tks (length c) p = Inr u"
    unfolding x check_bars_Cons_Inr by auto
  from Cons.prems(3) have "(i, b) = (j, c) \<or> (i, b) \<in> set p" unfolding x by simp
  then show ?case
  proof
    assume "(i, b) = (j, c)"
    then show ?thesis using h(1) by simp
  next
    assume "(i, b) \<in> set p"
    then have "length b = length c"
      using Cons.IH [OF h(2)] Cons.prems(2) h(1) by simp
    then show ?thesis using h(1) by simp
  qed
qed

lemma check_bars_equal_lengths:
  assumes "check_bars ins tks n p = Inr u"
    and "(i, b) \<in> set p" and "(i', b') \<in> set p" and "b \<noteq> []" and "b' \<noteq> []"
  shows "length b = length b'"
  using assms
proof (induction p arbitrary: n)
  case Nil
  then show ?case by simp
next
  case (Cons x p)
  obtain j c where x: "x = (j, c)" by (cases x)
  from Cons.prems(1) have h: "check_bars ins tks (length c) p = Inr u"
    unfolding x check_bars_Cons_Inr by blast
  have tail: "length d = length c" if "(k, d) \<in> set p" and "c \<noteq> []" for k d
    using check_bars_fixed_length [OF h _ that(1)] that(2) by simp
  from Cons.prems(2) have 1: "(i, b) = (j, c) \<or> (i, b) \<in> set p" unfolding x by simp
  from Cons.prems(3) have 2: "(i', b') = (j, c) \<or> (i', b') \<in> set p" unfolding x by simp
  show ?case
  proof (cases "(i, b) = (j, c)")
    case True
    show ?thesis
    proof (cases "(i', b') = (j, c)")
      case True
      with \<open>(i, b) = (j, c)\<close> show ?thesis by simp
    next
      case False
      with 2 have "(i', b') \<in> set p" by blast
      then have "length b' = length c" using tail True Cons.prems(4) by simp
      then show ?thesis using True by simp
    qed
  next
    case False
    with 1 have ip: "(i, b) \<in> set p" by blast
    show ?thesis
    proof (cases "(i', b') = (j, c)")
      case True
      then have "length b = length c" using tail [OF ip] Cons.prems(5) by simp
      then show ?thesis using True by simp
    next
      case False
      with 2 have "(i', b') \<in> set p" by blast
      then show ?thesis using Cons.IH [OF h ip _ Cons.prems(4,5)] by simp
    qed
  qed
qed

lemma check_patterns_error:
  assumes "tks \<noteq> 0" and "check_patterns ins tks ps = Inl e"
  shows "\<exists>msg. e = ValueError msg"
  using assms(2)
proof (induction ps)
  case Nil
  then show ?case by simp
next
  case (Cons p ps)
  show ?case
  proof (cases "check_bars ins tks 0 p")
    case (Inl e')
    then have "e' = e" using Cons.prems by (simp add: bindE_def)
    then show ?thesis using check_bars_error [OF assms(1) Inl] by simp
  next
    case (Inr u)
    then have "check_patterns ins tks ps = Inl e" using Cons.prems by (simp add: bindE_def)
    then show ?thesis by (rule Cons.IH)
  qed
qed

lemma check_patterns_accepts:
  assumes "check_patterns ins tks ps = Inr u" and "p \<in> set ps"
  shows "\<exists>u'. check_bars ins tks 0 p = Inr u'"
  using assms
proof (induction ps)
  case Nil
  then show ?case by simp
next
  case (Cons q ps)
  show ?case
  proof (cases "check_bars ins tks 0 q")
    case (Inl e')
    then show ?thesis using Cons.prems(1) by (simp add: bindE_def)
  next
    case (Inr u')
    then have "check_patterns ins tks ps = Inr u" using Cons.prems(1) by (simp add: bindE_def)
    then show ?thesis using Cons.IH Cons.prems(2) Inr by auto
  qed
qed

text \<open>
  C4: construction is to reject any two bars of unequal length within one pattern, and any
  empty bar. The pattern \<open>{kick: '', snare: 'x...'}\<close> has bars of lengths 0 and 4 and is
  accepted: \<open>bar_length = 0\<close> also stands for no bar seen yet, so after the empty bar the test
  \<open>0 < bar_length != len(bars)\<close> lets the next bar through, and 0 passes
  \<open>len(bars) % ticks != 0\<close>. The same two bars in the other order are rejected, with the
  message that all bars must be of equal length.
\<close>

theorem Mixer_init_accepts_unequal_bars:
  "Mixer_init [[(''kick'', []), (''snare'', ''x...'')]] 128 4 kit
     = Inr (song [[(''kick'', []), (''snare'', ''x...'')]])
   \<and> Mixer_init [[(''snare'', ''x...''), (''kick'', [])]] 128 4 kit
     = Inl (ValueError ''all bars must be of equal length in the same pattern'')"
  by (simp add: Mixer_init_def bindE_def kit_def song_def)

section \<open>Mixer: the mix\<close>

lemma Sample_init_default: "Sample_init (Some []) 0 = Inr (cd_stereo [])"
  by (simp add: Sample_init_def cd_stereo_def norm_samplerate_def norm_nchannels_def
      norm_sampwidth_def)

lemma make_32bit_empty: "make_32bit (cd_stereo []) True = Inr (work32 [])"
  by (simp add: make_32bit_def get_32bit_frames_def cd_stereo_def work32_def raising_def
      get_frames_def bindE_def audioop_lin2lin_def c_int_def audioop_check_parameters_def
      audioop_check_size_def sample_offsets_def)

lemma mix_grow_header:
  assumes "mix_grow_if_needed s i n = Inr s0"
  shows "s0\<lparr>frames := x\<rparr> = s\<lparr>frames := x\<rparr>"
  using assms
  by (cases "get_frames s")
    (auto simp: mix_grow_if_needed_def raising_def Let_def split: if_splits)

lemma mix_split_header:
  assumes "mix_split_frames s n i = Inr (t, s1)"
  shows "s1\<lparr>frames := x\<rparr> = s\<lparr>frames := x\<rparr>"
proof (cases "mix_grow_if_needed s i n")
  case (Inl e)
  with assms show ?thesis by (simp add: mix_split_frames_def bindM_def)
next
  case (Inr s0)
  with assms have "s1 = s0"
    by (cases "get_frames s0") (auto simp: mix_split_frames_def bindM_def raising_def Let_def)
  then show ?thesis using mix_grow_header [OF Inr] by simp
qed

lemma mix_at_header:
  assumes "mix_at s seconds other os = Inr s'"
  shows "s'\<lparr>frames := x\<rparr> = s\<lparr>frames := x\<rparr>"
proof -
  from assms have c: "\<not> locked s" "sampwidth s = sampwidth other"
    "samplerate s = samplerate other" "nchannels s = nchannels other"
    by (auto simp: mix_at_def split: if_splits)
  show ?thesis
  proof (cases "frame_idx s seconds")
    case (Inl e)
    with assms c show ?thesis by (simp add: mix_at_def raising_def)
  next
    case i: (Inr i)
    show ?thesis
    proof (cases "other_frames_of other os")
      case (Inl e)
      with assms c i show ?thesis by (simp add: mix_at_def raising_def)
    next
      case g0: (Inr g0)
      show ?thesis
      proof (cases "need_bytes g0")
        case (Inl e)
        with assms c i g0 show ?thesis by (simp add: mix_at_def raising_def)
      next
        case g: (Inr g)
        show ?thesis
        proof (cases "mix_split_frames s (int (length g)) i")
          case (Inl e)
          with assms c i g0 g show ?thesis by (simp add: mix_at_def raising_def bindM_def)
        next
          case (Inr ts)
          obtain pre to_mix post s1 where ts: "ts = ((pre, to_mix, post), s1)"
            by (cases ts) auto
          note sp = Inr [unfolded ts]
          show ?thesis
          proof (cases "audioop_add to_mix g (sampwidth s1)")
            case (Inl e)
            with assms c i g0 g sp show ?thesis
              by (simp add: mix_at_def raising_def bindM_def)
          next
            case (Inr mixed)
            with assms c i g0 g sp
            have "s' = s1\<lparr>frames := Some (mix_join_frames pre mixed post)\<rparr>"
              by (simp add: mix_at_def raising_def bindM_def)
            then show ?thesis using mix_split_header [OF sp] by simp
          qed
        qed
      qed
    qed
  qed
qed

lemma append_sample_header:
  assumes "append_sample s seconds = Inr s'"
  shows "s'\<lparr>frames := x\<rparr> = s\<lparr>frames := x\<rparr>"
  using assms by (auto simp: append_sample_def raising_def split: if_splits sum.splits)

lemma cut_sample_header:
  assumes "cut_sample s a b = Inr s'"
  shows "s'\<lparr>frames := x\<rparr> = s\<lparr>frames := x\<rparr>"
  using assms by (auto simp: cut_sample_def raising_def split: if_splits sum.splits)

lemma place_Cons_Inr:
  assumes "place verbose tot s ((index, timestamp, smp) # items) = Inr s'"
  shows "\<exists>s1. mix_at s timestamp smp None = Inr s1 \<and> place verbose tot s1 items = Inr s'"
proof (cases "if verbose then float_div timestamp tot else Inr 0")
  case (Inl e)
  with assms show ?thesis by (simp add: bindE_def)
next
  case (Inr u)
  with assms show ?thesis
    by (cases "mix_at s timestamp smp None") (auto simp: bindE_def)
qed

lemma place_header:
  assumes "place verbose tot s items = Inr s'"
  shows "s'\<lparr>frames := x\<rparr> = s\<lparr>frames := x\<rparr>"
  using assms
proof (induction items arbitrary: s)
  case Nil
  then show ?case by simp
next
  case (Cons it items)
  obtain index timestamp smp where it: "it = (index, timestamp, smp)" by (cases it)
  from place_Cons_Inr [OF Cons.prems [unfolded it]]
  obtain s1 where 1: "mix_at s timestamp smp None = Inr s1"
    and 2: "place verbose tot s1 items = Inr s'"
    by blast
  show ?case using Cons.IH [OF 2] mix_at_header [OF 1] by simp
qed

lemma working_sample:
  "bindE (Sample_init (Some []) 0) (\<lambda>s0.
     bindE (case make_32bit s0 True of Inl (e, _) \<Rightarrow> Inl e | Inr s1 \<Rightarrow> Inr s1) k) = k (work32 [])"
  by (simp add: Sample_init_default make_32bit_empty bindE_def)

lemma Mixer_mix_nonempty:
  assumes "patterns m \<noteq> []"
  shows "Mixer_mix m verbose =
           bindE (sum_bars (bpm m) (ticks m) 0 (patterns m)) (\<lambda>total_seconds.
           bindE (place verbose total_seconds (work32 []) (fst (mixed_samples m))) (\<lambda>mixed.
             case snd (mixed_samples m) of
               Some e \<Rightarrow> Inl e
             | None \<Rightarrow> correct_length total_seconds mixed))"
  using assms
  by (simp add: Mixer_mix_def working_sample Let_def)

lemma correct_length_cases:
  assumes "correct_length tot mixed = Inr r"
  shows "\<exists>d. duration mixed = Inr d
           \<and> (if 0 < float_sub tot d then append_sample mixed (float_sub tot d) = Inr r
               else if float_sub tot d < 0 then cut_sample mixed 0 tot = Inr r
               else r = mixed)"
proof (cases "duration mixed")
  case (Inl e)
  with assms show ?thesis by (simp add: correct_length_def bindE_def)
next
  case (Inr d)
  consider "0 < float_sub tot d" | "\<not> 0 < float_sub tot d" "float_sub tot d < 0"
    | "\<not> 0 < float_sub tot d" "\<not> float_sub tot d < 0" by blast
  then show ?thesis
  proof cases
    case 1
    with assms Inr show ?thesis
      by (cases "append_sample mixed (float_sub tot d)")
        (auto simp: correct_length_def bindE_def Let_def)
  next
    case 2
    with assms Inr show ?thesis
      by (cases "cut_sample mixed 0 tot") (auto simp: correct_length_def bindE_def Let_def)
  next
    case 3
    with assms Inr show ?thesis by (simp add: correct_length_def bindE_def Let_def)
  qed
qed

lemma correct_length_header:
  assumes "correct_length tot mixed = Inr r"
  shows "r\<lparr>frames := x\<rparr> = mixed\<lparr>frames := x\<rparr>"
proof -
  from correct_length_cases [OF assms] obtain d where
    "if 0 < float_sub tot d then append_sample mixed (float_sub tot d) = Inr r
     else if float_sub tot d < 0 then cut_sample mixed 0 tot = Inr r
     else r = mixed"
    by blast
  then show ?thesis
    using append_sample_header cut_sample_header by (auto split: if_splits)
qed

lemma Mixer_mix_Inr:
  assumes "patterns m \<noteq> []" and "Mixer_mix m verbose = Inr r"
  shows "\<exists>tot mixed. sum_bars (bpm m) (ticks m) 0 (patterns m) = Inr tot
           \<and> place verbose tot (work32 []) (fst (mixed_samples m)) = Inr mixed
           \<and> snd (mixed_samples m) = None
           \<and> correct_length tot mixed = Inr r"
proof (cases "sum_bars (bpm m) (ticks m) 0 (patterns m)")
  case (Inl e)
  with assms(2) show ?thesis
    unfolding Mixer_mix_nonempty [OF assms(1)] by (simp add: bindE_def)
next
  case tot: (Inr tot)
  show ?thesis
  proof (cases "place verbose tot (work32 []) (fst (mixed_samples m))")
    case (Inl e)
    with assms(2) tot show ?thesis
      unfolding Mixer_mix_nonempty [OF assms(1)] by (simp add: bindE_def)
  next
    case (Inr mixed)
    with assms(2) tot show ?thesis
      unfolding Mixer_mix_nonempty [OF assms(1)]
      by (cases "snd (mixed_samples m)") (auto simp: bindE_def)
  qed
qed

lemma Mixer_mix_header:
  assumes "patterns m \<noteq> []" and "Mixer_mix m verbose = Inr r"
  shows "r\<lparr>frames := x\<rparr> = (work32 [])\<lparr>frames := x\<rparr>"
proof -
  from Mixer_mix_Inr [OF assms] obtain tot mixed where
    p: "place verbose tot (work32 []) (fst (mixed_samples m)) = Inr mixed"
    and c: "correct_length tot mixed = Inr r"
    by blast
  show ?thesis using place_header [OF p] correct_length_header [OF c] by simp
qed

lemma work32_simps [simp]:
  "locked (work32 f) = False" "samplerate (work32 f) = 44100" "nchannels (work32 f) = 2"
  "sampwidth (work32 f) = 4" "frames (work32 f) = Some f"
  "(work32 f)\<lparr>frames := Some g\<rparr> = work32 g"
  by (simp_all add: work32_def)

lemma duration_work32:
  "duration (work32 f) =
     bindE (int_truediv (int (length f)) 44100) (\<lambda>a.
     bindE (float_div_int a 4) (\<lambda>b. float_div_int b 2))"
  by (simp add: duration_def get_frames_def bindE_def)

lemma one_bar_total: "sum_bars 128 4 0 [[(''kick'', ''x...'')]] = Inr (15 / 32)"
  by code_simp

lemma one_bar_samples:
  "mixed_samples (song [[(''kick'', ''x...'')]])
     = ([(0, 0, lock (work32 [1, 0, 0, 0, 2, 0, 0, 0]))], None)"
  by code_simp

lemma one_bar_place:
  "place True (15 / 32) (work32 []) [(0, 0, lock (work32 [1, 0, 0, 0, 2, 0, 0, 0]))]
     = Inr (work32 [1, 0, 0, 0, 2, 0, 0, 0])"
  by code_simp

lemma one_frame_duration:
  "duration (work32 [1, 0, 0, 0, 2, 0, 0, 0])
     = Inr (6692696262570359 / 295147905179352825856)"
  by code_simp

lemma one_bar_missing:
  "float_sub (15 / 32) (6692696262570359 / 295147905179352825856)
     = 1055480101444695 / 2251799813685248"
  by code_simp

lemma one_bar_extra:
  "frame_idx (work32 [1, 0, 0, 0, 2, 0, 0, 0]) (1055480101444695 / 2251799813685248)
     = Inr 165360"
  by code_simp

lemma one_bar_correct:
  "correct_length (15 / 32) (work32 [1, 0, 0, 0, 2, 0, 0, 0])
     = Inr (work32 ([1, 0, 0, 0, 2, 0, 0, 0] @ replicate 165360 0))"
  by (simp add: correct_length_def one_frame_duration one_bar_missing bindE_def
      append_sample_def one_bar_extra raising_def get_frames_def zeros_def)

lemma song_simps:
  "patterns (song p) = p" "bpm (song p) = 128" "ticks (song p) = 4" "instruments (song p) = kit"
  by (simp_all add: song_def)

lemma one_bar_mix:
  "Mixer_mix (song [[(''kick'', ''x...'')]]) True
     = Inr (work32 ([1, 0, 0, 0, 2, 0, 0, 0] @ replicate 165360 0))"
proof -
  have "Mixer_mix (song [[(''kick'', ''x...'')]]) True =
           bindE (sum_bars (bpm (song [[(''kick'', ''x...'')]])) (ticks (song [[(''kick'', ''x...'')]])) 0
                    (patterns (song [[(''kick'', ''x...'')]]))) (\<lambda>total_seconds.
           bindE (place True total_seconds (work32 [])
                    (fst (mixed_samples (song [[(''kick'', ''x...'')]])))) (\<lambda>mixed.
             case snd (mixed_samples (song [[(''kick'', ''x...'')]])) of
               Some e \<Rightarrow> Inl e
             | None \<Rightarrow> correct_length total_seconds mixed))"
    by (rule Mixer_mix_nonempty) (simp add: song_simps)
  then show ?thesis
    by (simp only: song_simps one_bar_total one_bar_samples fst_conv snd_conv one_bar_place
        one_bar_correct bindE_def sum.case option.case)
qed

lemma one_bar_duration:
  "duration (work32 ([1, 0, 0, 0, 2, 0, 0, 0] @ replicate 165360 0))
     = Inr (8443891872777825 / 18014398509481984)"
proof -
  have "bindE (int_truediv 165368 44100) (\<lambda>a.
          bindE (float_div_int a 4) (\<lambda>b. float_div_int b 2))
        = Inr (8443891872777825 / 18014398509481984)"
    by code_simp
  then show ?thesis by (simp add: duration_work32)
qed

text \<open>
  C10. With no patterns, mix returns a fresh \<^verbatim>\<open>Sample()\<close>: unlocked, empty, 44100 Hz, 2
  channels, 2 bytes wide. With patterns, whatever mix returns is the 32-bit accumulator:
  4 bytes wide, 44100 Hz, 2 channels, unlocked.
\<close>

theorem empty_song_is_16bit:
  "(patterns m = [] \<longrightarrow>
      Mixer_mix m verbose =
        Inr \<lparr>locked = False, samplerate = 44100, nchannels = 2, sampwidth = 2,
             frames = Some [], filename = None\<rparr>)
   \<and> (patterns m \<noteq> [] \<longrightarrow> Mixer_mix m verbose = Inr r \<longrightarrow>
        sampwidth r = 4 \<and> samplerate r = 44100 \<and> nchannels r = 2 \<and> \<not> locked r)"
proof (intro conjI impI)
  assume "patterns m = []"
  then show "Mixer_mix m verbose =
        Inr \<lparr>locked = False, samplerate = 44100, nchannels = 2, sampwidth = 2,
             frames = Some [], filename = None\<rparr>"
    by (simp add: Mixer_mix_def Sample_init_default cd_stereo_def)
next
  assume "patterns m \<noteq> []" and "Mixer_mix m verbose = Inr r"
  then have h: "r\<lparr>frames := None\<rparr> = (work32 [])\<lparr>frames := None\<rparr>"
    by (rule Mixer_mix_header)
  have "sampwidth r = sampwidth (r\<lparr>frames := None\<rparr>)" by simp
  then show "sampwidth r = 4" unfolding h by (simp add: work32_def)
  have "samplerate r = samplerate (r\<lparr>frames := None\<rparr>)" by simp
  then show "samplerate r = 44100" unfolding h by (simp add: work32_def)
  have "nchannels r = nchannels (r\<lparr>frames := None\<rparr>)" by simp
  then show "nchannels r = 2" unfolding h by (simp add: work32_def)
  have "locked r = locked (r\<lparr>frames := None\<rparr>)" by simp
  then show "\<not> locked r" unfolding h by (simp add: work32_def)
qed

theorem empty_song_is_16bit_witness:
  "patterns (song []) = []
   \<and> Mixer_mix (song []) True = Inr (cd_stereo [])
   \<and> patterns (song [[(''kick'', ''x...'')]]) \<noteq> []
   \<and> Mixer_mix (song [[(''kick'', ''x...'')]]) True
       = Inr (work32 ([1, 0, 0, 0, 2, 0, 0, 0] @ replicate 165360 0))
   \<and> sampwidth (work32 ([1, 0, 0, 0, 2, 0, 0, 0] @ replicate 165360 0)) = 4"
proof -
  have 1: "patterns (song []) = []" by (simp add: song_def)
  have 2: "patterns (song [[(''kick'', ''x...'')]]) \<noteq> []" by (simp add: song_def)
  from empty_song_is_16bit [of "song []" True] 1
  have 3: "Mixer_mix (song []) True = Inr (cd_stereo [])" by (simp add: cd_stereo_def)
  from empty_song_is_16bit [of "song [[(''kick'', ''x...'')]]" True] 2 one_bar_mix
  have 4: "sampwidth (work32 ([1, 0, 0, 0, 2, 0, 0, 0] @ replicate 165360 0)) = 4" by blast
  show ?thesis using 1 2 3 4 one_bar_mix by simp
qed

section \<open>Sample: duration and frame index\<close>

lemma float_div_int_small:
  assumes "n \<noteq> 0" and "\<bar>n\<bar> < 2 ^ 53"
  shows "float_div_int a n = Inr (fl (a / of_int n))"
  using assms by (simp add: float_div_int_def float_of_int_small bindE_def float_div_def)

lemma int_truediv_small:
  assumes "b \<noteq> 0" and "\<bar>of_int a / of_int b :: rat\<bar> \<le> 2 ^ 64"
  shows "int_truediv a b = Inr (fl (of_int a / of_int b))"
  using assms by (simp add: int_truediv_def not_fl_overflows)

lemma duration_eval:
  assumes "frames s = Some f"
    and "0 < samplerate s"
    and "1 \<le> sampwidth s" "sampwidth s \<le> 4" and "1 \<le> nchannels s" "nchannels s \<le> 2"
    and "length f \<le> 2 ^ 64"
  shows "duration s =
           Inr (fl (fl (fl (of_int (int (length f)) / of_int (samplerate s))
                          / of_int (sampwidth s)) / of_int (nchannels s)))"
proof -
  have "(of_nat (length f) :: rat) \<le> of_nat (2 ^ 64)" using assms(7) by (simp only: of_nat_le_iff)
  then have N: "(of_nat (length f) :: rat) \<le> 2 ^ 64" by simp
  have R: "1 \<le> (of_int (samplerate s) :: rat)" using assms(2) by simp
  have "(of_nat (length f) :: rat) / of_int (samplerate s) \<le> of_nat (length f) / 1"
    using R by (intro divide_left_mono) simp_all
  then have "(of_nat (length f) :: rat) / of_int (samplerate s) \<le> 2 ^ 64" using N by simp
  moreover have "0 \<le> (of_nat (length f) :: rat) / of_int (samplerate s)"
    using assms(2) by simp
  ultimately have q: "\<bar>of_int (int (length f)) / of_int (samplerate s) :: rat\<bar> \<le> 2 ^ 64"
    by simp
  have 1: "int_truediv (int (length f)) (samplerate s)
             = Inr (fl (of_int (int (length f)) / of_int (samplerate s)))"
    using assms(2) q by (intro int_truediv_small) simp_all
  have 2: "float_div_int a (sampwidth s) = Inr (fl (a / of_int (sampwidth s)))" for a
    using assms(3,4) by (intro float_div_int_small) simp_all
  have 3: "float_div_int a (nchannels s) = Inr (fl (a / of_int (nchannels s)))" for a
    using assms(5,6) by (intro float_div_int_small) simp_all
  show ?thesis
    using assms(1) by (simp only: duration_def get_frames_def option.case bindE_def sum.case 1 2 3)
qed

lemma fifteen_frames_duration:
  "duration (cd_stereo (replicate 60 0)) = Inr (6274402746159711 / 18446744073709551616)"
proof -
  have "fl (fl (fl (60 / 44100) / 2) / 2) = 6274402746159711 / 18446744073709551616"
    by code_simp
  moreover have "duration (cd_stereo (replicate 60 0)) =
      Inr (fl (fl (fl (of_int (int (length (replicate 60 (0::byte))))
                         / of_int (samplerate (cd_stereo (replicate 60 0))))
                     / of_int (sampwidth (cd_stereo (replicate 60 0))))
                 / of_int (nchannels (cd_stereo (replicate 60 0)))))"
    by (rule duration_eval) (simp_all add: cd_stereo_def)
  ultimately show ?thesis by (simp add: cd_stereo_def)
qed

lemma fifteen_frames_index:
  "frame_idx (cd_stereo (replicate 60 0)) (6274402746159711 / 18446744073709551616) = Inr 56"
proof -
  have "py_int (fl (44100 * (6274402746159711 / 18446744073709551616))) = 14"
    by code_simp
  then show ?thesis
    by (simp add: frame_idx_eval cd_stereo_def)
qed

text \<open>
  C6, as stated: frame_idx(duration) is the length of the buffer. On a Sample of 15 frames in
  the normalized format (60 bytes) the duration is 60/44100/2/2, rounded three times, and
  44100 times it rounds to a double just below 15: \<^verbatim>\<open>int()\<close> gives 14, and the frame index is 56.
\<close>

theorem duration_roundtrip_counterexample:
  "length (replicate 60 (0 :: byte)) = 60
   \<and> duration (cd_stereo (replicate 60 0)) = Inr (6274402746159711 / 18446744073709551616)
   \<and> frame_idx (cd_stereo (replicate 60 0)) (6274402746159711 / 18446744073709551616) = Inr 56"
  using fifteen_frames_duration fifteen_frames_index by simp

text \<open>
  C6, amended: for a Sample of \<open>n \<le> 2 ^ 40\<close> whole frames, with a rate from 1 to \<open>2 ^ 32\<close>
  Hz, 1 to 4 bytes and 1 or 2 channels, the duration is computed, and its frame index is the
  length of the buffer or one frame less.
\<close>

theorem duration_roundtrip_within_a_frame:
  assumes "frames s = Some f"
    and "0 < samplerate s" "samplerate s \<le> 2 ^ 32"
    and "1 \<le> sampwidth s" "sampwidth s \<le> 4" and "1 \<le> nchannels s" "nchannels s \<le> 2"
    and "int (length f) = nchannels s * sampwidth s * n" and "n \<le> 2 ^ 40"
  shows "\<exists>d. duration s = Inr d
           \<and> (frame_idx s d = Inr (int (length f))
              \<or> frame_idx s d = Inr (int (length f) - nchannels s * sampwidth s))"
proof -
  let ?R = "samplerate s" and ?W = "sampwidth s" and ?C = "nchannels s"
  define d where "d = fl (fl (fl (of_int (int (length f)) / of_int ?R) / of_int ?W) / of_int ?C)"
  have cw: "0 < ?C * ?W" using assms(4,6) by (intro mult_pos_pos) simp_all
  have n0: "0 \<le> n"
  proof (rule ccontr)
    assume "\<not> 0 \<le> n"
    then have "?C * ?W * n < 0" using cw by (simp add: mult_less_0_iff)
    then show False using assms(8) by simp
  qed
  have "?C * ?W \<le> 2 * 4" using assms(4-7) by (intro mult_mono) simp_all
  then have "?C * ?W * n \<le> 8 * 2 ^ 40" using assms(9) n0 cw by (intro mult_mono) simp_all
  then have "int (length f) \<le> 2 ^ 64" using assms(8) by simp
  then have len: "length f \<le> 2 ^ 64" by (simp add: le_nat_iff [symmetric] nat_le_iff)
  have dur: "duration s = Inr d"
    unfolding d_def using assms(1,2,4-7) len by (rule duration_eval)
  have Rs: "\<bar>?R\<bar> < 2 ^ 53" using assms(2,3) by simp
  show ?thesis
  proof (cases "n = 0")
    case True
    then have "length f = 0" using assms(8) by simp
    then have "d = 0" by (simp add: d_def fl_def)
    then have "frame_idx s d = Inr 0"
      using Rs by (simp add: frame_idx_eval fl_def py_int_def)
    then show ?thesis using dur \<open>length f = 0\<close> by simp
  next
    case False
    then have n1: "1 \<le> n" using n0 by simp
    from roundtrip_product [OF assms(2,3) assms(4,5) assms(6,7) assms(8) n1 assms(9)]
    have lo: "of_int n - 1 < fl (of_int ?R * d)" and hi: "fl (of_int ?R * d) < of_int n + 1"
      and p0: "0 \<le> of_int ?R * d" and ub: "of_int ?R * d \<le> 2 ^ 64"
      unfolding d_def by blast+
    have "\<bar>of_int ?R * d\<bar> \<le> 2 ^ 64" using p0 ub by simp
    then have idx: "frame_idx s d = Inr (?C * ?W * py_int (fl (of_int ?R * d)))"
      using Rs by (rule frame_idx_eval [rotated])
    have "0 \<le> fl (of_int ?R * d)" using p0 by (rule fl_nonneg)
    then have "py_int (fl (of_int ?R * d)) = \<lfloor>fl (of_int ?R * d)\<rfloor>" by (simp add: py_int_def)
    then have "py_int (fl (of_int ?R * d)) = n \<or> py_int (fl (of_int ?R * d)) = n - 1"
      using floor_near [OF lo hi] by simp
    then have "frame_idx s d = Inr (?C * ?W * n) \<or> frame_idx s d = Inr (?C * ?W * (n - 1))"
      using idx by auto
    then show ?thesis using dur assms(8) by (auto simp: algebra_simps)
  qed
qed

theorem duration_roundtrip_within_a_frame_witness:
  "frames (cd_stereo (replicate 60 0)) = Some (replicate 60 0)
   \<and> 0 < samplerate (cd_stereo (replicate 60 0))
   \<and> samplerate (cd_stereo (replicate 60 0)) \<le> 2 ^ 32
   \<and> 1 \<le> sampwidth (cd_stereo (replicate 60 0)) \<and> sampwidth (cd_stereo (replicate 60 0)) \<le> 4
   \<and> 1 \<le> nchannels (cd_stereo (replicate 60 0)) \<and> nchannels (cd_stereo (replicate 60 0)) \<le> 2
   \<and> int (length (replicate 60 (0 :: byte)))
       = nchannels (cd_stereo (replicate 60 0)) * sampwidth (cd_stereo (replicate 60 0)) * 15
   \<and> (15 :: int) \<le> 2 ^ 40
   \<and> duration (cd_stereo (replicate 60 0)) = Inr (6274402746159711 / 18446744073709551616)
   \<and> frame_idx (cd_stereo (replicate 60 0)) (6274402746159711 / 18446744073709551616)
       = Inr (int (length (replicate 60 (0 :: byte)))
              - nchannels (cd_stereo (replicate 60 0)) * sampwidth (cd_stereo (replicate 60 0)))"
proof -
  let ?s = "cd_stereo (replicate 60 0)"
  have "\<exists>d. duration ?s = Inr d
           \<and> (frame_idx ?s d = Inr (int (length (replicate 60 (0 :: byte))))
              \<or> frame_idx ?s d = Inr (int (length (replicate 60 (0 :: byte)))
                                      - nchannels ?s * sampwidth ?s))"
    by (rule duration_roundtrip_within_a_frame [where n = 15]) (simp_all add: cd_stereo_def)
  then obtain d where 1: "duration ?s = Inr d"
    and 2: "frame_idx ?s d = Inr (int (length (replicate 60 (0 :: byte))))
              \<or> frame_idx ?s d = Inr (int (length (replicate 60 (0 :: byte)))
                                      - nchannels ?s * sampwidth ?s)"
    by blast
  have "Inr d = (Inr (6274402746159711 / 18446744073709551616) :: error + rat)"
    using 1 fifteen_frames_duration by (simp only:)
  then have d: "d = 6274402746159711 / 18446744073709551616" by (simp only: sum.inject)
  from 2 have "frame_idx ?s (6274402746159711 / 18446744073709551616)
       = Inr (int (length (replicate 60 (0 :: byte))) - nchannels ?s * sampwidth ?s)"
    unfolding d using fifteen_frames_index by (auto simp: cd_stereo_def)
  then show ?thesis
    using fifteen_frames_duration by (simp add: cd_stereo_def)
qed

section \<open>Mixer: the duration of the mix\<close>

text \<open>
  Rounding a value of bounded size moves it by a bounded amount, and the three divisions of
  \<open>duration\<close> keep the result within \<open>1 / 2 ^ 28\<close> s of the exact quotient for
  buffers of up to \<open>2 ^ 23\<close> s.
\<close>

lemma fl_close:
  assumes "\<bar>x\<bar> \<le> b" and "1 \<le> b"
  shows "x - b / 2 ^ 52 \<le> fl x \<and> fl x \<le> x + b / 2 ^ 52"
proof -
  have "(1::rat) / 2 ^ 1075 \<le> 1 / 2 ^ 53"
    by (intro divide_left_mono power_increasing) simp_all
  also have "\<dots> \<le> b / 2 ^ 53" using assms(2) by (simp add: divide_right_mono)
  finally have e: "(1::rat) / 2 ^ 1075 \<le> b / 2 ^ 53" .
  have "\<bar>x\<bar> / 2 ^ 53 \<le> b / 2 ^ 53" using assms(1) by (simp add: divide_right_mono)
  then have "\<bar>x\<bar> / 2 ^ 53 + 1 / 2 ^ 1075 \<le> b / 2 ^ 53 + b / 2 ^ 53"
    using e by (rule add_mono)
  with fl_error [of x] have "\<bar>fl x - x\<bar> \<le> b / 2 ^ 53 + b / 2 ^ 53" by (rule order_trans)
  also have "\<dots> = b / 2 ^ 52" by simp
  finally have "\<bar>fl x - x\<bar> \<le> b / 2 ^ 52" .
  then show ?thesis unfolding abs_le_iff by linarith
qed

lemma fl_ge_half:
  assumes "1 \<le> x"
  shows "x / 2 \<le> fl x"
proof -
  have "x - x / 2 ^ 52 \<le> fl x" using assms fl_close [of x x] by simp
  moreover have "x / 2 ^ 52 \<le> x / 2" using assms by (intro divide_left_mono) simp_all
  ultimately show ?thesis by linarith
qed

lemma duration_close:
  assumes "0 \<le> x" and "x \<le> 2 ^ 23"
  shows "x / 8 - 1 / 2 ^ 28 \<le> fl (fl (fl x / 4) / 2) \<and> fl (fl (fl x / 4) / 2) \<le> x / 8 + 1 / 2 ^ 28"
proof -
  have e: "(2::rat) ^ 23 / 2 ^ 52 = 1 / 2 ^ 29" by simp
  have 1: "x - 1 / 2 ^ 29 \<le> fl x \<and> fl x \<le> x + 1 / 2 ^ 29"
    using assms fl_close [of x "2 ^ 23"] unfolding e by simp
  have p1: "0 \<le> fl x" using assms(1) by (rule fl_nonneg)
  have "fl x \<le> 2 ^ 23 + 1" using 1 assms(2) by (simp; linarith)
  then have "\<bar>fl x / 4\<bar> \<le> 2 ^ 23" using p1 by simp
  from fl_close [OF this]
  have 2: "fl x / 4 - 1 / 2 ^ 29 \<le> fl (fl x / 4) \<and> fl (fl x / 4) \<le> fl x / 4 + 1 / 2 ^ 29"
    unfolding e by simp
  have p2: "0 \<le> fl (fl x / 4)" using p1 by (intro fl_nonneg) simp
  have "fl (fl x / 4) \<le> 2 ^ 23" using 1 2 assms(2) by (simp; linarith)
  then have "\<bar>fl (fl x / 4) / 2\<bar> \<le> 2 ^ 23" using p2 by simp
  from fl_close [OF this]
  have 3: "fl (fl x / 4) / 2 - 1 / 2 ^ 29 \<le> fl (fl (fl x / 4) / 2)
         \<and> fl (fl (fl x / 4) / 2) \<le> fl (fl x / 4) / 2 + 1 / 2 ^ 29"
    unfolding e by simp
  show ?thesis using 1 2 3 by (simp; linarith)
qed

lemma duration_big:
  assumes "2 ^ 23 < x"
  shows "2 ^ 17 \<le> fl (fl (fl x / 4) / 2)"
proof -
  have 1: "x / 2 \<le> fl x" using assms by (intro fl_ge_half) simp
  then have "1 \<le> fl x / 4" using assms by simp
  then have 2: "fl x / 4 / 2 \<le> fl (fl x / 4)" by (rule fl_ge_half)
  then have "1 \<le> fl (fl x / 4) / 2" using 1 assms by simp
  then have 3: "fl (fl x / 4) / 2 / 2 \<le> fl (fl (fl x / 4) / 2)" by (rule fl_ge_half)
  show ?thesis using 1 2 3 assms by simp
qed

lemma duration_work32_value:
  assumes "duration (work32 f) = Inr d"
  shows "d = fl (fl (fl (of_nat (length f) / 44100) / 4) / 2)"
proof -
  have 4: "float_div_int a 4 = Inr (fl (a / 4))" for a
    using float_div_int_small [of 4 a] by simp
  have 2: "float_div_int a 2 = Inr (fl (a / 2))" for a
    using float_div_int_small [of 2 a] by simp
  show ?thesis
    using assms unfolding duration_work32
    by (simp add: int_truediv_def bindE_def 4 2 split: if_splits)
qed

lemma placed_is_work32:
  assumes "place verbose tot (work32 []) items = Inr mixed" and "duration mixed = Inr d"
  shows "\<exists>f. mixed = work32 f"
proof (cases "frames mixed")
  case None
  with assms(2) show ?thesis by (simp add: duration_def get_frames_def bindE_def)
next
  case (Some f)
  have "mixed\<lparr>frames := Some f\<rparr> = (work32 [])\<lparr>frames := Some f\<rparr>"
    using assms(1) by (rule place_header)
  moreover have "mixed\<lparr>frames := Some f\<rparr> = mixed" using Some by simp
  ultimately have "mixed = work32 f" by simp
  then show ?thesis ..
qed

lemma fl_zero_near:
  assumes "fl z = 0"
  shows "- (1 / 2 ^ 60) \<le> z \<and> z \<le> 1 / 2 ^ 60"
proof -
  have a: "(1::rat) / 2 ^ 1075 \<le> 1 / 2 ^ 61"
    by (intro divide_left_mono power_increasing) simp_all
  have b: "\<bar>z\<bar> \<le> \<bar>z\<bar> / 2 ^ 53 + 1 / 2 ^ 1075"
    using fl_error [of z] assms by simp
  have "\<bar>z\<bar> / 2 ^ 53 + 1 / 2 ^ 1075 \<le> \<bar>z\<bar> / 2 ^ 53 + 1 / 2 ^ 61"
    using a by (rule add_left_mono)
  with b have "\<bar>z\<bar> \<le> \<bar>z\<bar> / 2 ^ 53 + 1 / 2 ^ 61" by (rule order_trans)
  then show ?thesis by (simp; linarith)
qed

text \<open>
  The three branches of the length correction, on the accumulator \<open>work32 f\<close>: silence is
  appended, or the buffer is cut, in whole frames of 8 bytes.
\<close>

lemma accumulator_near:
  assumes d: "d = fl (fl (fl (of_nat N / 44100) / 4) / 2)" and small: "d < 2 ^ 17"
  shows "44100 * d - 1 / 2 ^ 12 \<le> of_nat N / 8 \<and> of_nat N / 8 \<le> 44100 * d + 1 / 2 ^ 12"
proof -
  define x :: rat where "x = of_nat N / 44100"
  have x0: "0 \<le> x" by (simp add: x_def)
  have dx: "d = fl (fl (fl x / 4) / 2)" by (simp add: d x_def)
  have "\<not> 2 ^ 23 < x"
  proof
    assume "2 ^ 23 < x"
    from duration_big [OF this] small show False unfolding dx by simp
  qed
  then have "x \<le> 2 ^ 23" by simp
  from duration_close [OF x0 this]
  have "x / 8 - 1 / 2 ^ 28 \<le> d \<and> d \<le> x / 8 + 1 / 2 ^ 28" unfolding dx .
  moreover have "of_nat N / 8 = 44100 * (x / 8)" by (simp add: x_def)
  ultimately show ?thesis by (simp; linarith)
qed

lemma accumulator_long:
  assumes d: "d = fl (fl (fl (of_nat N / 44100) / 4) / 2)" and T: "T \<le> 2 ^ 16" and long: "T < d"
  shows "44100 * T - 1 / 2 ^ 12 < of_nat N / 8"
proof (cases "d < 2 ^ 17")
  case True
  from accumulator_near [OF d True] long show ?thesis by (simp; linarith)
next
  case False
  define x :: rat where "x = of_nat N / 44100"
  have x0: "0 \<le> x" by (simp add: x_def)
  have dx: "d = fl (fl (fl x / 4) / 2)" by (simp add: d x_def)
  have "\<not> x \<le> 2 ^ 19"
  proof
    assume "x \<le> 2 ^ 19"
    then have "x \<le> 2 ^ 23" by simp
    from duration_close [OF x0 this] \<open>x \<le> 2 ^ 19\<close> have "d < 2 ^ 17"
      unfolding dx by (simp; linarith)
    with False show False ..
  qed
  moreover have "of_nat N / 8 = 44100 * (x / 8)" by (simp add: x_def)
  ultimately show ?thesis using T by (simp; linarith)
qed

lemma frame_idx_work32:
  assumes "0 \<le> t" and "t \<le> 2 ^ 16 + 1"
  shows "\<exists>p. frame_idx (work32 f) t = Inr (8 * \<lfloor>p\<rfloor>) \<and> 0 \<le> p
           \<and> 44100 * t - 1 / 2 ^ 20 \<le> p \<and> p \<le> 44100 * t + 1 / 2 ^ 20"
proof -
  have b: "\<bar>44100 * t\<bar> \<le> 2 ^ 32" using assms by simp
  then have "\<bar>of_int (samplerate (work32 f)) * t\<bar> \<le> 2 ^ 64" by simp
  then have "frame_idx (work32 f) t
        = Inr (nchannels (work32 f) * sampwidth (work32 f)
                 * py_int (fl (of_int (samplerate (work32 f)) * t)))"
    by (intro frame_idx_eval) simp_all
  moreover have p: "0 \<le> fl (44100 * t)" using assms(1) by (intro fl_nonneg) simp
  ultimately have 1: "frame_idx (work32 f) t = Inr (8 * \<lfloor>fl (44100 * t)\<rfloor>)"
    by (simp add: py_int_def)
  have e: "(2::rat) ^ 32 / 2 ^ 52 = 1 / 2 ^ 20" by simp
  from fl_close [OF b]
  have "44100 * t - 1 / 2 ^ 20 \<le> fl (44100 * t) \<and> fl (44100 * t) \<le> 44100 * t + 1 / 2 ^ 20"
    unfolding e by simp
  with 1 p show ?thesis by blast
qed

lemma append_missing_frames:
  assumes dur: "duration (work32 f) = Inr d" and miss: "0 < float_sub T d" and T: "T \<le> 2 ^ 16"
    and app: "append_sample (work32 f) (float_sub T d) = Inr r"
  shows "\<exists>g. r = work32 g \<and> 44100 * T - 1 - 1 / 1000 < of_nat (length g) / 8
           \<and> of_nat (length g) / 8 < 44100 * T + 1 / 1000"
proof -
  define N where "N = length f"
  define ms where "ms = fl (T - d)"
  have d: "d = fl (fl (fl (of_nat N / 44100) / 4) / 2)"
    unfolding N_def using dur by (rule duration_work32_value)
  have d0: "0 \<le> d" unfolding d by (intro fl_nonneg divide_nonneg_nonneg) simp_all
  have ms0: "0 < ms" using miss by (simp add: float_sub_def ms_def)
  have "\<not> T - d \<le> 0" using fl_nonpos [of "T - d"] ms0 unfolding ms_def by auto
  then have lt: "d < T" by simp
  then have "d < 2 ^ 17" using T by simp
  from accumulator_near [OF d this]
  have acc: "44100 * d - 1 / 2 ^ 12 \<le> of_nat N / 8 \<and> of_nat N / 8 \<le> 44100 * d + 1 / 2 ^ 12" .
  have "\<bar>T - d\<bar> \<le> 2 ^ 16" using lt d0 T by simp
  from fl_close [OF this]
  have m: "T - d - 1 / 2 ^ 36 \<le> ms \<and> ms \<le> T - d + 1 / 2 ^ 36"
    unfolding ms_def by simp
  have "0 \<le> ms" using ms0 by simp
  moreover have "ms \<le> 2 ^ 16 + 1" using m lt d0 T by (simp; linarith)
  ultimately obtain p where idx: "frame_idx (work32 f) ms = Inr (8 * \<lfloor>p\<rfloor>)" and p0: "0 \<le> p"
    and p: "44100 * ms - 1 / 2 ^ 20 \<le> p \<and> p \<le> 44100 * ms + 1 / 2 ^ 20"
    using frame_idx_work32 [of ms f] by blast
  have fp: "0 \<le> \<lfloor>p\<rfloor>" using p0 by simp
  have r: "r = work32 (f @ zeros (8 * \<lfloor>p\<rfloor>))"
    using app idx unfolding float_sub_def ms_def [symmetric]
    by (simp add: append_sample_def raising_def get_frames_def)
  have "0 \<le> 8 * \<lfloor>p\<rfloor>" using fp by simp
  then have "(of_nat (nat (8 * \<lfloor>p\<rfloor>)) :: rat) = of_int (8 * \<lfloor>p\<rfloor>)" by (rule of_nat_nat)
  moreover have "(of_nat (length (f @ zeros (8 * \<lfloor>p\<rfloor>))) :: rat)
      = of_nat N + of_nat (nat (8 * \<lfloor>p\<rfloor>))"
    by (simp add: N_def)
  ultimately have len: "(of_nat (length (f @ zeros (8 * \<lfloor>p\<rfloor>))) :: rat) / 8
      = of_nat N / 8 + of_int \<lfloor>p\<rfloor>"
    by (simp only: of_int_mult of_int_numeral add_divide_distrib nonzero_mult_div_cancel_left)
  have fl1: "of_int \<lfloor>p\<rfloor> \<le> p" and fl2: "p < of_int \<lfloor>p\<rfloor> + 1" by linarith+
  have "44100 * T - 1 - 1 / 1000 < of_nat N / 8 + of_int \<lfloor>p\<rfloor>"
    using acc m p fl2 by (simp; linarith)
  moreover have "of_nat N / 8 + of_int \<lfloor>p\<rfloor> < 44100 * T + 1 / 1000"
    using acc m p fl1 by (simp; linarith)
  ultimately show ?thesis using r len by (intro exI [of _ "f @ zeros (8 * \<lfloor>p\<rfloor>)"]) simp
qed

lemma frame_idx_work32_zero: "frame_idx (work32 f) 0 = Inr 0"
  by (simp add: frame_idx_def float_of_int_small bindE_def fl_overflows_def float_mul_def fl_def
      py_int_def)

lemma cut_sample_work32:
  assumes "cut_sample (work32 f) 0 T = Inr r" and "frame_idx (work32 f) T = Inr e" and "0 \<le> e"
  shows "0 < T \<and> (\<exists>g. r = work32 g \<and> length g = min (length f) (nat e))"
proof -
  have T: "0 < T" using assms(1) by (auto simp: cut_sample_def split: if_splits)
  have s: "py_slice f (Some 0) (Some e) = take (nat e) f"
    using py_slice_middle [of 0 e f] assms(3) by simp
  show ?thesis
  proof (cases "e = int (length f)")
    case True
    then have "r = work32 f"
      using assms(1,2) T
      by (simp add: cut_sample_def raising_def frame_idx_work32_zero get_frames_def)
    then show ?thesis using T True by auto
  next
    case False
    then have "r = work32 (take (nat e) f)"
      using assms(1,2) T s
      by (simp add: cut_sample_def raising_def frame_idx_work32_zero get_frames_def)
    then show ?thesis using T by auto
  qed
qed

lemma cut_extra_frames:
  assumes dur: "duration (work32 f) = Inr d" and miss: "float_sub T d < 0" and T: "T \<le> 2 ^ 16"
    and cut: "cut_sample (work32 f) 0 T = Inr r"
  shows "\<exists>g. r = work32 g \<and> 44100 * T - 1 - 1 / 1000 < of_nat (length g) / 8
           \<and> of_nat (length g) / 8 < 44100 * T + 1 / 1000"
proof -
  define N where "N = length f"
  have d: "d = fl (fl (fl (of_nat N / 44100) / 4) / 2)"
    unfolding N_def using dur by (rule duration_work32_value)
  have "\<not> 0 \<le> T - d" using fl_nonneg [of "T - d"] miss by (auto simp: float_sub_def)
  then have "T < d" by simp
  from accumulator_long [OF d T this]
  have acc: "44100 * T - 1 / 2 ^ 12 < of_nat N / 8" .
  have T0: "0 < T" using cut by (auto simp: cut_sample_def split: if_splits)
  then have "0 \<le> T" and "T \<le> 2 ^ 16 + 1" using T by simp_all
  then obtain q where idx: "frame_idx (work32 f) T = Inr (8 * \<lfloor>q\<rfloor>)" and q0: "0 \<le> q"
    and q: "44100 * T - 1 / 2 ^ 20 \<le> q \<and> q \<le> 44100 * T + 1 / 2 ^ 20"
    using frame_idx_work32 [of T f] by blast
  have e0: "0 \<le> 8 * \<lfloor>q\<rfloor>" using q0 by simp
  from cut_sample_work32 [OF cut idx e0]
  obtain g where r: "r = work32 g" and len: "length g = min N (nat (8 * \<lfloor>q\<rfloor>))"
    unfolding N_def by blast
  have e: "(of_nat (nat (8 * \<lfloor>q\<rfloor>)) :: rat) = 8 * of_int \<lfloor>q\<rfloor>"
    using e0 by (simp only: of_nat_nat of_int_mult of_int_numeral)
  have fl1: "of_int \<lfloor>q\<rfloor> \<le> q" and fl2: "q < of_int \<lfloor>q\<rfloor> + 1" by linarith+
  have "44100 * T - 1 - 1 / 1000 < of_nat (length g) / 8
      \<and> of_nat (length g) / 8 < 44100 * T + 1 / 1000"
  proof (cases "N \<le> nat (8 * \<lfloor>q\<rfloor>)")
    case True
    then have "(of_nat N :: rat) \<le> of_nat (nat (8 * \<lfloor>q\<rfloor>))" by (simp only: of_nat_le_iff)
    then have "(of_nat N :: rat) \<le> 8 * of_int \<lfloor>q\<rfloor>" unfolding e .
    moreover have "length g = N" using True len by simp
    ultimately show ?thesis using acc q fl1 by (simp; linarith)
  next
    case False
    then have "length g = nat (8 * \<lfloor>q\<rfloor>)" using len by simp
    then have "(of_nat (length g) :: rat) = 8 * of_int \<lfloor>q\<rfloor>" using e by simp
    then show ?thesis using q fl1 fl2 by (simp; linarith)
  qed
  with r show ?thesis by blast
qed

lemma exact_length_frames:
  assumes dur: "duration (work32 f) = Inr d" and miss: "float_sub T d = 0" and T: "T \<le> 2 ^ 16"
  shows "44100 * T - 1 - 1 / 1000 < of_nat (length f) / 8
           \<and> of_nat (length f) / 8 < 44100 * T + 1 / 1000"
proof -
  have d: "d = fl (fl (fl (of_nat (length f) / 44100) / 4) / 2)"
    using dur by (rule duration_work32_value)
  have "fl (T - d) = 0" using miss by (simp add: float_sub_def)
  from fl_zero_near [OF this]
  have z: "- (1 / 2 ^ 60) \<le> T - d \<and> T - d \<le> 1 / 2 ^ 60" .
  then have "d < 2 ^ 17" using T by (simp; linarith)
  from accumulator_near [OF d this] z show ?thesis by (simp; linarith)
qed

lemma correct_length_frames:
  assumes c: "correct_length T (work32 f) = Inr r" and T: "T \<le> 2 ^ 16"
  shows "\<exists>g. r = work32 g \<and> 44100 * T - 1 - 1 / 1000 < of_nat (length g) / 8
           \<and> of_nat (length g) / 8 < 44100 * T + 1 / 1000"
proof -
  from correct_length_cases [OF c] obtain d where dur: "duration (work32 f) = Inr d"
    and br: "if 0 < float_sub T d then append_sample (work32 f) (float_sub T d) = Inr r
             else if float_sub T d < 0 then cut_sample (work32 f) 0 T = Inr r
             else r = work32 f"
    by blast
  consider "0 < float_sub T d" | "float_sub T d < 0" | "float_sub T d = 0" by linarith
  then show ?thesis
  proof cases
    case 1
    with br have "append_sample (work32 f) (float_sub T d) = Inr r" by simp
    with dur 1 T show ?thesis by (intro append_missing_frames)
  next
    case 2
    with br have "cut_sample (work32 f) 0 T = Inr r" by simp
    with dur 2 T show ?thesis by (intro cut_extra_frames)
  next
    case 3
    with br have "r = work32 f" by simp
    with exact_length_frames [OF dur 3 T] show ?thesis by blast
  qed
qed

lemma duration_of_frames:
  assumes lo: "44100 * T - 1 - 1 / 1000 < of_nat (length g) / 8"
    and hi: "of_nat (length g) / 8 < 44100 * T + 1 / 1000" and T: "T \<le> 2 ^ 16"
  shows "\<exists>d. duration (work32 g) = Inr d \<and> T - 1 / 44000 < d \<and> d < T + 1 / 10000000"
proof -
  define x :: rat where "x = of_nat (length g) / 44100"
  have x0: "0 \<le> x" by (simp add: x_def)
  have x8: "of_nat (length g) / 8 = 44100 * (x / 8)" by (simp add: x_def)
  have x23: "x \<le> 2 ^ 23" using hi T unfolding x8 by (simp; linarith)
  have "\<bar>of_int (int (length g)) / of_int 44100 :: rat\<bar> \<le> 2 ^ 64"
    using x0 x23 unfolding x_def by simp
  then have 1: "int_truediv (int (length g)) 44100 = Inr (fl x)"
    unfolding x_def by (simp add: int_truediv_small)
  have 4: "float_div_int a 4 = Inr (fl (a / 4))" for a
    using float_div_int_small [of 4 a] by simp
  have 2: "float_div_int a 2 = Inr (fl (a / 2))" for a
    using float_div_int_small [of 2 a] by simp
  have dur: "duration (work32 g) = Inr (fl (fl (fl x / 4) / 2))"
    by (simp add: duration_work32 1 4 2 bindE_def)
  from duration_close [OF x0 x23] lo hi
  have "T - 1 / 44000 < fl (fl (fl x / 4) / 2) \<and> fl (fl (fl x / 4) / 2) < T + 1 / 10000000"
    unfolding x8 by (simp; linarith)
  with dur show ?thesis by blast
qed

text \<open>
  C1, as stated: the duration of the mix equals the total the patterns give. One bar of four
  ticks at 128 bpm and 4 ticks is 15/32 s, that is 20671.875 frames; the mix has 20671 frames
  (165368 bytes), and its duration falls short of 15/32 s by more than 1/100000 s.
\<close>

theorem mix_duration_counterexample:
  "Mixer_init [[(''kick'', ''x...'')]] 128 4 kit = Inr (song [[(''kick'', ''x...'')]])
   \<and> sum_bars 128 4 0 [[(''kick'', ''x...'')]] = Inr (15 / 32)
   \<and> Mixer_mix (song [[(''kick'', ''x...'')]]) True
       = Inr (work32 ([1, 0, 0, 0, 2, 0, 0, 0] @ replicate 165360 0))
   \<and> duration (work32 ([1, 0, 0, 0, 2, 0, 0, 0] @ replicate 165360 0))
       = Inr (8443891872777825 / 18014398509481984)
   \<and> (1 / 100000 :: rat) < 15 / 32 - 8443891872777825 / 18014398509481984"
proof -
  have "Mixer_init [[(''kick'', ''x...'')]] 128 4 kit = Inr (song [[(''kick'', ''x...'')]])"
    by (simp add: Mixer_init_def bindE_def kit_def song_def)
  then show ?thesis
    using one_bar_total one_bar_mix one_bar_duration by simp
qed

text \<open>
  Construction accepts a pattern without instruments; mix then raises at
  \<^verbatim>\<open>next(iter(p.values()))\<close>.
\<close>

lemma empty_pattern_raises:
  "Mixer_init [[]] 128 4 kit = Inr (song [[]])
   \<and> Mixer_mix (song [[]]) True = Inl StopIteration"
  by (simp add: Mixer_init_def Mixer_mix_def song_def bindE_def Sample_init_default)

text \<open>
  C1, amended: for a non-empty pattern list whose total \<open>total_seconds\<close>, as mix sums it, is
  at most 65536 s, whenever mix returns, the result is the 32-bit accumulator and holds more
  than \<open>44100 * total_seconds - 1.001\<close> and fewer than \<open>44100 * total_seconds + 0.001\<close>
  frames of 8 bytes; its duration is more than \<open>total_seconds - 1/44000\<close> s and less than
  \<open>total_seconds + 1/10000000\<close> s. The length is corrected in whole frames, so the duration
  is the total rounded down to a frame, up to one frame short of it.
\<close>

theorem mix_duration_within_a_frame:
  assumes "patterns m \<noteq> []"
    and "sum_bars (bpm m) (ticks m) 0 (patterns m) = Inr total_seconds"
    and "total_seconds \<le> 65536"
    and "Mixer_mix m verbose = Inr r"
  shows "\<exists>f d. r = work32 f \<and> duration r = Inr d
           \<and> 44100 * total_seconds - 1 - 1 / 1000 < of_nat (length f) / 8
           \<and> of_nat (length f) / 8 < 44100 * total_seconds + 1 / 1000
           \<and> total_seconds - 1 / 44000 < d \<and> d < total_seconds + 1 / 10000000"
proof -
  from Mixer_mix_Inr [OF assms(1,4)] assms(2) obtain mixed where
    p: "place verbose total_seconds (work32 []) (fst (mixed_samples m)) = Inr mixed"
    and c: "correct_length total_seconds mixed = Inr r"
    by auto
  from correct_length_cases [OF c] obtain d0 where "duration mixed = Inr d0" by blast
  with p obtain f0 where "mixed = work32 f0" using placed_is_work32 by blast
  with c have c': "correct_length total_seconds (work32 f0) = Inr r" by simp
  have T: "total_seconds \<le> 2 ^ 16" using assms(3) by simp
  from correct_length_frames [OF c' T] obtain f where r: "r = work32 f"
    and lo: "44100 * total_seconds - 1 - 1 / 1000 < of_nat (length f) / 8"
    and hi: "of_nat (length f) / 8 < 44100 * total_seconds + 1 / 1000"
    by blast
  from duration_of_frames [OF lo hi T] obtain d where "duration (work32 f) = Inr d"
    and "total_seconds - 1 / 44000 < d" and "d < total_seconds + 1 / 10000000"
    by blast
  with r lo hi show ?thesis by blast
qed

theorem mix_duration_within_a_frame_witness:
  "patterns (song [[(''kick'', ''x...'')]]) \<noteq> []
   \<and> sum_bars (bpm (song [[(''kick'', ''x...'')]])) (ticks (song [[(''kick'', ''x...'')]])) 0
        (patterns (song [[(''kick'', ''x...'')]])) = Inr (15 / 32)
   \<and> (15 / 32 :: rat) \<le> 65536
   \<and> Mixer_mix (song [[(''kick'', ''x...'')]]) True
        = Inr (work32 ([1, 0, 0, 0, 2, 0, 0, 0] @ replicate 165360 0))
   \<and> duration (work32 ([1, 0, 0, 0, 2, 0, 0, 0] @ replicate 165360 0))
        = Inr (8443891872777825 / 18014398509481984)
   \<and> 44100 * (15 / 32) - 1 - 1 / 1000 < (of_nat 165368 :: rat) / 8
   \<and> (of_nat 165368 :: rat) / 8 < 44100 * (15 / 32) + 1 / 1000
   \<and> (15 / 32 :: rat) - 1 / 44000 < 8443891872777825 / 18014398509481984
   \<and> (8443891872777825 / 18014398509481984 :: rat) < 15 / 32 + 1 / 10000000"
proof -
  let ?m = "song [[(''kick'', ''x...'')]]"
  let ?b = "[1, 0, 0, 0, 2, 0, 0, 0] @ replicate 165360 (0 :: byte)"
  have 1: "patterns ?m \<noteq> []" by (simp add: song_simps)
  have 2: "sum_bars (bpm ?m) (ticks ?m) 0 (patterns ?m) = Inr (15 / 32)"
    by (simp only: song_simps one_bar_total)
  have 3: "(15 / 32 :: rat) \<le> 65536" by simp
  have 4: "Mixer_mix ?m True = Inr (work32 ?b)" by (rule one_bar_mix)
  from mix_duration_within_a_frame [OF 1 2 3 4] obtain f d where
    f: "work32 ?b = work32 f" and d: "duration (work32 ?b) = Inr d"
    and lo: "44100 * (15 / 32) - 1 - 1 / 1000 < (of_nat (length f) :: rat) / 8"
    and hi: "(of_nat (length f) :: rat) / 8 < 44100 * (15 / 32) + 1 / 1000"
    and dlo: "(15 / 32 :: rat) - 1 / 44000 < d" and dhi: "d < 15 / 32 + 1 / 10000000"
    by blast
  have "frames (work32 ?b) = frames (work32 f)" using f by (simp only:)
  then have "f = ?b" by (simp only: work32_simps option.inject)
  then have len: "length f = 165368" by simp
  have dv: "d = 8443891872777825 / 18014398509481984" using d one_bar_duration by simp
  show ?thesis
    using 1 2 3 4 one_bar_duration lo hi dlo dhi unfolding len dv by (simp only: simp_thms)
qed

end
